theory Spec2Isabelle
  imports Main "HOL-Library.Word" "HOL-Library.Multiset"
begin

unbundle bit_operations_syntax

section \<open>Go values: bytes, slices, run-time panics and error values\<close>

type_synonym byte = "8 word"
type_synonym uint16 = "16 word"

text \<open>
  A run-time panic of Go aborts the process; an \<open>error\<close> is an ordinary return value.
  The two are kept apart: every operation returns \<open>panic + r\<close>, where \<open>Inl\<close> is the
  panic and \<open>r\<close> holds what the Go function returns (and the receiver after the call).
\<close>

datatype panic = SliceBoundsOutOfRange | IndexOutOfRange

datatype error =
    ErrInvalid
  | ErrSignatureOutOfBounds
  | ErrDowngradeNotTI
  | ErrDowngradeWrongSize
  | ErrTIMagicMissing
  | ErrTIWrongCRC uint16 uint16
  | ErrNoValidImage
  | ErrUnsupportedFormat

text \<open>
  A slice is modelled by its visible elements, with its capacity equal to its length.
  The slice expression \<open>s[lo:hi]\<close> panics when \<open>lo > hi\<close> or \<open>hi\<close> exceeds the
  capacity; the index expression \<open>s[i]\<close> panics when \<open>i\<close> is not below the length.
  Where a slice has spare capacity, Go lets \<open>hi\<close> run up to the capacity; whenever
  \<open>slice\<close> returns a value, it is the value of the Go expression whatever the capacity,
  and a panic of \<open>slice\<close> with \<open>lo \<le> hi\<close> is a panic of the Go expression on a slice
  without spare capacity.
\<close>

definition slice :: "'a list \<Rightarrow> nat \<Rightarrow> nat \<Rightarrow> panic + 'a list" where
  "slice s lo hi =
     (if lo \<le> hi \<and> hi \<le> length s then Inr (take (hi - lo) (drop lo s))
      else Inl SliceBoundsOutOfRange)"

definition index :: "'a list \<Rightarrow> nat \<Rightarrow> panic + 'a" where
  "index s i = (if i < length s then Inr (s ! i) else Inl IndexOutOfRange)"

text \<open>
  \<open>copy(dst[lo:hi], src)\<close> for \<open>lo \<le> hi \<le> len(dst)\<close>: the number of elements
  copied is the smaller of the two lengths; the result is \<open>dst\<close> after the copy.
\<close>

definition copy_into :: "'a list \<Rightarrow> nat \<Rightarrow> nat \<Rightarrow> 'a list \<Rightarrow> 'a list" where
  "copy_into dst lo hi src =
     (let n = min (hi - lo) (length src)
      in take lo dst @ take n src @ drop (lo + n) dst)"

section \<open>The firmware entity\<close>

datatype FirmwareTargetType =
    FIRMWARE_TARGET_TYPE_UNKNOWN
  | FIRMWARE_TARGET_TYPE_NORDIC
  | FIRMWARE_TARGET_TYPE_TI

text \<open>\<open>RawData\<close> is \<open>None\<close> for the nil slice, which \<open>pushRawHexLine\<close> tests for.\<close>

record Firmware =
  RawData :: "byte list option"
  Size :: uint16
  StartOffset :: uint16
  LastOffset :: uint16
  HasBL :: bool
  CRC :: uint16
  TailPos :: uint16
  Signature :: "byte list"
  HasSignature :: bool
  TargetType :: FirmwareTargetType

definition raw :: "Firmware \<Rightarrow> byte list" where
  "raw f = (case RawData f of None \<Rightarrow> [] | Some r \<Rightarrow> r)"

text \<open>The zero value \<open>Firmware{}\<close>.\<close>

definition zeroFirmware :: Firmware where
  "zeroFirmware =
     \<lparr>RawData = None, Size = 0, StartOffset = 0, LastOffset = 0, HasBL = False, CRC = 0,
      TailPos = 0, Signature = replicate 256 0, HasSignature = False,
      TargetType = FIRMWARE_TARGET_TYPE_UNKNOWN\<rparr>"

section \<open>The hex record loader\<close>

text \<open>
  \<open>addr := int(hexline[1])<<8 | int(hexline[2])\<close>, and \<open>4+length\<close> computed in the
  type \<open>byte\<close> of \<open>length\<close>, where it wraps around.
\<close>

definition record_addr :: "byte list \<Rightarrow> nat" where
  "record_addr hexline = push_bit 8 (unat (hexline ! 1)) OR unat (hexline ! 2)"

definition pushData :: "Firmware \<Rightarrow> nat \<Rightarrow> nat \<Rightarrow> byte list \<Rightarrow> Firmware" where
  "pushData f addr resultsize data =
     (let f1 = (if RawData f = None
                then f\<lparr>StartOffset := of_nat addr, RawData := Some []\<rparr> else f);
          r1 = (if length (raw f1) < resultsize
                then raw f1 @ replicate (resultsize - length (raw f1)) 0xFF else raw f1);
          f2 = f1\<lparr>RawData := Some (copy_into r1 addr resultsize data)\<rparr>;
          f3 = (if (of_nat addr :: uint16) < StartOffset f2
                then f2\<lparr>StartOffset := of_nat addr\<rparr> else f2)
      in if (of_nat resultsize :: uint16) > Size f3 + StartOffset f3
         then (let f4 = f3\<lparr>Size := of_nat resultsize - StartOffset f3\<rparr>
               in f4\<lparr>LastOffset := StartOffset f4 + Size f4 - 1\<rparr>)
         else f3)"

definition pushSignature :: "Firmware \<Rightarrow> nat \<Rightarrow> nat \<Rightarrow> byte list \<Rightarrow> Firmware \<times> error option" where
  "pushSignature f addr resultsize data =
     (let f1 = f\<lparr>HasSignature := True\<rparr>
      in if resultsize > 0x100 then (f1, Some ErrSignatureOutOfBounds)
         else (f1\<lparr>Signature := copy_into (Signature f1) addr resultsize data\<rparr>, None))"

definition pushRawHexLine :: "Firmware \<Rightarrow> byte list \<Rightarrow> panic + (Firmware \<times> error option)" where
  "pushRawHexLine f hexline =
     (if length hexline < 4 then Inr (f, Some ErrInvalid)
      else
        let len = hexline ! 0;
            addr = record_addr hexline;
            target = hexline ! 3;
            resultsize = addr + unat len
        in case slice hexline 4 (unat (4 + len)) of
             Inl p \<Rightarrow> Inl p
           | Inr data \<Rightarrow>
               if target = 0x00 then Inr (pushData f addr resultsize data, None)
               else if target = 0xfd then Inr (pushSignature f addr resultsize data)
               else Inr (f, Some ErrInvalid))"


section \<open>Loading a hex file\<close>

text \<open>
  \<open>hex.DecodeString\<close> of the standard library: two hexadecimal digits (either case) per
  byte; \<open>None\<close> stands for a non-nil error (a character that is no digit, or an odd
  length), in which case the caller drops the line.
\<close>

definition hexval :: "char \<Rightarrow> byte option" where
  "hexval c =
     (let n = (of_char c :: nat)
      in if 48 \<le> n \<and> n \<le> 57 then Some (of_nat (n - 48))
         else if 97 \<le> n \<and> n \<le> 102 then Some (of_nat (n - 87))
         else if 65 \<le> n \<and> n \<le> 70 then Some (of_nat (n - 55))
         else None)"

fun DecodeString :: "string \<Rightarrow> byte list option" where
  "DecodeString [] = Some []"
| "DecodeString [c] = None"
| "DecodeString (p # q # rest) =
     (case (hexval p, hexval q) of
        (Some a, Some b) \<Rightarrow>
          (case DecodeString rest of
             None \<Rightarrow> None
           | Some bs \<Rightarrow> Some ((push_bit 4 a OR b) # bs))
      | _ \<Rightarrow> None)"

text \<open>
  The scanner loop of \<open>ParseFirmwareHex\<close> over the lines of the file. The line loses its
  first character by \<open>scanner.Text()[1:]\<close>, which panics on an empty line. The error that
  \<open>pushRawHexLine\<close> returns is dropped by the caller.
\<close>

fun hexLoop :: "Firmware \<Rightarrow> string list \<Rightarrow> panic + Firmware" where
  "hexLoop f [] = Inr f"
| "hexLoop f (l # ls) =
     (if l = [] then Inl SliceBoundsOutOfRange
      else case DecodeString (tl l) of
             None \<Rightarrow> hexLoop f ls
           | Some hbytes \<Rightarrow>
               if length hbytes < 4 \<or> (hbytes ! 3 \<noteq> 0x00 \<and> hbytes ! 3 \<noteq> 0xfd)
               then hexLoop f ls
               else (case pushRawHexLine f hbytes of
                       Inl p \<Rightarrow> Inl p
                     | Inr (f', err) \<Rightarrow> hexLoop f' ls))"

text \<open>
  \<open>f.RawData = f.RawData[f.StartOffset:f.StartOffset+f.Size]\<close>; the upper bound is a
  sum of two \<open>uint16\<close> and wraps around. Slicing the nil slice gives the nil slice.
\<close>

definition trim :: "Firmware \<Rightarrow> panic + Firmware" where
  "trim f =
     (case slice (raw f) (unat (StartOffset f)) (unat (StartOffset f + Size f)) of
        Inl p \<Rightarrow> Inl p
      | Inr r \<Rightarrow> Inr (f\<lparr>RawData := (if RawData f = None then None else Some r)\<rparr>))"

section \<open>The checksum\<close>

text \<open>
  \<open>crc16.Checksum\<close> with the table of \<open>crc16.CRC16_CCITT_FALSE\<close> (package
  github.com/sigurn/crc16: polynomial 0x1021, initial value 0xFFFF, no reflection, no
  final xor). \<open>crc_table n\<close> is the entry that \<open>MakeTable\<close> computes for \<open>n\<close>.
\<close>

definition crc_shift :: "uint16 \<Rightarrow> uint16" where
  "crc_shift crc =
     (if crc AND 0x8000 \<noteq> 0 then push_bit 1 crc XOR 0x1021 else push_bit 1 crc)"

definition crc_table :: "byte \<Rightarrow> uint16" where
  "crc_table n = (crc_shift ^^ 8) (push_bit 8 (ucast n))"

fun Update :: "uint16 \<Rightarrow> byte list \<Rightarrow> uint16" where
  "Update crc [] = crc"
| "Update crc (d # ds) =
     Update (push_bit 8 crc XOR crc_table (ucast (drop_bit 8 crc) XOR d)) ds"

definition Checksum :: "byte list \<Rightarrow> uint16" where
  "Checksum data = Update 0xFFFF data"

section \<open>The format detectors\<close>

definition marker :: "byte list" where
  "marker = [0xfe, 0xc0, 0xad, 0xde]"

text \<open>\<open>strings.Index\<close>: the position of the first occurrence, \<open>None\<close> for -1.\<close>

fun Index :: "'a list \<Rightarrow> 'a list \<Rightarrow> nat option" where
  "Index [] sub = (if sub = [] then Some 0 else None)"
| "Index (x # xs) sub =
     (if take (length sub) (x # xs) = sub then Some 0
      else map_option Suc (Index xs sub))"

definition bind :: "panic + 'a \<Rightarrow> ('a \<Rightarrow> panic + 'b) \<Rightarrow> panic + 'b" where
  "bind m k = (case m of Inl p \<Rightarrow> Inl p | Inr x \<Rightarrow> k x)"

definition ParseFirmwareTI :: "Firmware \<Rightarrow> panic + (Firmware \<times> error option)" where
  "ParseFirmwareTI f =
     bind (slice (raw f) 0 0x0400) (\<lambda>assumed_bootloader.
       let f1 = (if assumed_bootloader ! 0x3f8 = 0x6d \<and> assumed_bootloader ! 0x3f9 = 0x04
                 then f\<lparr>HasBL := True, StartOffset := 0x400\<rparr>
                 else f\<lparr>HasBL := False, StartOffset := 0x0000\<rparr>)
       in bind (slice (raw f1) (unat (StartOffset f1)) (length (raw f1))) (\<lambda>s.
            case Index s marker of
              None \<Rightarrow> Inr (f1, Some ErrTIMagicMissing)
            | Some pos \<Rightarrow>
                let f2 = f1\<lparr>Size := of_nat pos + 4\<rparr>;
                    f3 = f2\<lparr>LastOffset := Size f2 + StartOffset f2 - 1\<rparr>;
                    f4 = f3\<lparr>TailPos := StartOffset f3 + Size f3 - 6\<rparr>
                in bind (index (raw f4) (unat (TailPos f4 + 1))) (\<lambda>hi.
                   bind (index (raw f4) (unat (TailPos f4))) (\<lambda>lo.
                     let f5 = f4\<lparr>CRC := push_bit 8 (ucast hi) OR ucast lo\<rparr>
                     in bind (slice (raw f5) (unat (StartOffset f5))
                                (unat (StartOffset f5 + Size f5 - 6))) (\<lambda>d.
                          let calculated_crc = Checksum d
                          in if calculated_crc \<noteq> CRC f5
                             then Inr (f5, Some (ErrTIWrongCRC calculated_crc (CRC f5)))
                             else Inr (f5, None))))))"

text \<open>
  One candidate size of the Nordic detector: the fields written, the checksum read from
  the last two bytes (high byte first) and compared with the one computed.
\<close>

definition nordicCandidate :: "Firmware \<Rightarrow> uint16 \<Rightarrow> panic + (Firmware \<times> bool)" where
  "nordicCandidate f sz =
     (let f1 = f\<lparr>StartOffset := 0x0000, LastOffset := sz - 1, Size := sz\<rparr>
      in bind (index (raw f1) (unat (Size f1 - 2))) (\<lambda>hi.
         bind (index (raw f1) (unat (Size f1 - 1))) (\<lambda>lo.
           let f2 = f1\<lparr>CRC := push_bit 8 (ucast hi) OR ucast lo\<rparr>
           in bind (slice (raw f2) 0 (unat (Size f2 - 2))) (\<lambda>d.
                Inr (f2, Checksum d = CRC f2)))))"

definition nordicHasBL :: "byte list \<Rightarrow> panic + bool" where
  "nordicHasBL r =
     (if length r > 0x7400
      then bind (index r (0x7400 + 0xbb0)) (\<lambda>b0.
             if b0 = 0x04
             then bind (index r (0x7400 + 0xbb1)) (\<lambda>b1. Inr (b1 = 0x6d))
             else Inr False)
      else Inr False)"

definition ParseFirmwareNordic :: "Firmware \<Rightarrow> panic + (Firmware \<times> error option)" where
  "ParseFirmwareNordic f =
     bind (nordicHasBL (raw f)) (\<lambda>bl.
       let f1 = f\<lparr>HasBL := bl\<rparr>
       in if length (raw f1) < 0x6400 then Inr (f1, Some ErrNoValidImage)
          else bind (nordicCandidate f1 0x6400) (\<lambda>(f2, ok).
                 if ok then Inr (f2, None)
                 else if length (raw f2) < 0x6800 then Inr (f2, Some ErrNoValidImage)
                 else bind (nordicCandidate f2 0x6800) (\<lambda>(f3, ok).
                        if ok then Inr (f3, None) else Inr (f3, Some ErrNoValidImage))))"

text \<open>
  The classification that ends both \<open>ParseFirmwareBin\<close> and \<open>ParseFirmwareHex\<close>: the
  entity returned is \<open>None\<close> (nil) when neither family accepts the image.
\<close>

definition classify :: "Firmware \<Rightarrow> panic + (Firmware option \<times> error option)" where
  "classify f =
     (let f0 = f\<lparr>TargetType := FIRMWARE_TARGET_TYPE_UNKNOWN\<rparr>
      in bind (ParseFirmwareTI f0) (\<lambda>(f1, err).
           if err \<noteq> None
           then bind (ParseFirmwareNordic f1) (\<lambda>(f2, errNordic).
                  if errNordic \<noteq> None then Inr (None, Some ErrUnsupportedFormat)
                  else Inr (Some (f2\<lparr>TargetType := FIRMWARE_TARGET_TYPE_NORDIC\<rparr>), None))
           else Inr (Some (f1\<lparr>TargetType := FIRMWARE_TARGET_TYPE_TI\<rparr>), None)))"

definition ParseFirmwareBin :: "byte list option \<Rightarrow> panic + (Firmware option \<times> error option)" where
  "ParseFirmwareBin binblob = classify (zeroFirmware\<lparr>RawData := binblob\<rparr>)"

text \<open>\<open>ParseFirmwareHex\<close> on the lines of a file that could be opened.\<close>

definition ParseFirmwareHex :: "string list \<Rightarrow> panic + (Firmware option \<times> error option)" where
  "ParseFirmwareHex lines = bind (hexLoop zeroFirmware lines) (\<lambda>f. bind (trim f) classify)"


section \<open>The downgrade patcher\<close>

text \<open>
  \<open>bytes.Replace(s, old, new, -1)\<close> of the standard library, for a non-empty \<open>old\<close>:
  the occurrences of \<open>old\<close> are found from left to right, the search going on behind
  each occurrence found, and each is replaced by \<open>new\<close>. (For an empty \<open>old\<close> the
  library inserts \<open>new\<close> before every character; the patcher never passes one, and the
  model returns \<open>s\<close>.)
\<close>

function Replace :: "'a list \<Rightarrow> 'a list \<Rightarrow> 'a list \<Rightarrow> 'a list" where
  "Replace [] old new = []"
| "Replace (x # xs) old new =
     (if old \<noteq> [] \<and> take (length old) (x # xs) = old
      then new @ Replace (drop (length old) (x # xs)) old new
      else x # Replace xs old new)"
  by pat_completeness auto
termination
  by (relation "measure (\<lambda>(s, old, new). length s)") (auto simp: neq_Nil_conv)

text \<open>The fourteen substitutions, in the order in which the patcher applies them.\<close>

definition patches :: "(byte list \<times> byte list) list" where
  "patches =
     [([0x90, 0xe4, 0x00], [0x90, 0xec, 0x00]),
      ([0x7a, 0x04, 0x7b, 0xe4], [0x7a, 0x04, 0x7b, 0xec]),
      ([0x90, 0xe8, 0x00], [0x90, 0xf0, 0x00]),
      ([0x7a, 0x04, 0x7b, 0xe8], [0x7a, 0x04, 0x7b, 0xf0]),
      ([0x08, 0x74, 0xe4], [0x08, 0x74, 0xec]),
      ([0x75, 0x0f, 0xe8], [0x75, 0x0f, 0xf0]),
      ([0x79, 0x1a], [0x79, 0x1c]),
      ([0x7f, 0x1a, 0x79, 0x7f], [0x7f, 0x1c, 0x79, 0x7f]),
      ([0x7f, 0x19], [0x7f, 0x1b]),
      ([0x79, 0x19], [0x79, 0x1b]),
      ([0xf2, 0x08, 0x74, 0xe8], [0xf2, 0x08, 0x74, 0xf0]),
      ([0x0f, 0xe4, 0x22], [0x0f, 0xec, 0x22]),
      ([0x00, 0x7b, 0x64], [0x00, 0x7b, 0x6c]),
      ([0x05, 0x79, 0x19], [0x05, 0x79, 0x1b])]"

definition applyPatches :: "(byte list \<times> byte list) list \<Rightarrow> byte list \<Rightarrow> byte list" where
  "applyPatches ps b = fold (\<lambda>(old, new) b. Replace b old new) ps b"

text \<open>\<open>s[i] = v\<close>, and the loop \<open>for i := lo; i < lo + n; i++ { s[i] = 0xFF }\<close>.\<close>

definition store :: "'a list \<Rightarrow> nat \<Rightarrow> 'a \<Rightarrow> panic + 'a list" where
  "store s i v = (if i < length s then Inr (s[i := v]) else Inl IndexOutOfRange)"

fun fillFF :: "byte list \<Rightarrow> nat \<Rightarrow> nat \<Rightarrow> panic + byte list" where
  "fillFF s lo 0 = Inr s"
| "fillFF s lo (Suc n) = bind (store s lo 0xFF) (\<lambda>s'. fillFF s' (Suc lo) n)"

text \<open>
  The result holds the receiver after the call and the two values returned: the patched
  image (\<open>None\<close> for nil) and the error. The bounds \<open>len-4\<close> and \<open>len-6\<close> are of type
  \<open>int\<close> and panic when negative.
\<close>

definition BaseImageDowngradeFromBL0302ToBL0301 ::
  "Firmware \<Rightarrow> panic + (Firmware \<times> byte list option \<times> error option)" where
  "BaseImageDowngradeFromBL0302ToBL0301 f =
     (if TargetType f \<noteq> FIRMWARE_TARGET_TYPE_TI then Inr (f, None, Some ErrDowngradeNotTI)
      else if Size f \<noteq> 0x6000 then Inr (f, None, Some ErrDowngradeWrongSize)
      else
        let p0 = replicate (unat (Size f + 0x800)) (0 :: byte)
        in bind (slice (raw f) (unat (StartOffset f)) (unat (StartOffset f + Size f))) (\<lambda>base.
           let p1 = copy_into p0 0 (length p0) base
           in bind (fillFF p1 (0x6000 - 6) 6) (\<lambda>p2.
              bind (fillFF p2 0x6000 (length p2 - 0x6000)) (\<lambda>p3.
                let p4 = applyPatches patches p3
                in if length p4 < 4 then Inl SliceBoundsOutOfRange
                   else
                     let p5 = copy_into p4 (length p4 - 4) (length p4) marker
                     in if length p5 < 6 then Inl SliceBoundsOutOfRange
                        else bind (slice p5 0 (length p5 - 6)) (\<lambda>d.
                          let calculated_crc = Checksum d
                          in bind (store p5 (length p5 - 6) (ucast (calculated_crc AND 0x00ff))) (\<lambda>p6.
                             bind (store p6 (length p6 - 5) (ucast (drop_bit 8 calculated_crc))) (\<lambda>p7.
                               Inr (f, Some p7, None))))))))"


section \<open>Auxiliary notions for the statements\<close>

text \<open>
  The end address of a record (\<open>resultsize\<close> in \<open>pushRawHexLine\<close>), the data bytes it
  declares, and a buffer grown to a given size with \<open>0xFF\<close>.
\<close>

definition record_end :: "byte list \<Rightarrow> nat" where
  "record_end hexline = record_addr hexline + unat (hexline ! 0)"

definition record_data :: "byte list \<Rightarrow> byte list" where
  "record_data hexline = take (unat (hexline ! 0)) (drop 4 hexline)"

definition padFF :: "byte list \<Rightarrow> nat \<Rightarrow> byte list" where
  "padFF r n = r @ replicate (n - length r) 0xFF"

text \<open>
  The bootloader test and the start offset of the TI detector, as functions of the buffer.
\<close>

definition tiBL :: "byte list \<Rightarrow> bool" where
  "tiBL r = (r ! 0x3f8 = 0x6d \<and> r ! 0x3f9 = 0x04)"

definition tiStart :: "byte list \<Rightarrow> uint16" where
  "tiStart r = (if tiBL r then 0x400 else 0)"

text \<open>
  The Nordic detector in the words of the specification: the checksum stored high byte
  first in the last two bytes of a candidate size, the test of one candidate size, the
  bootloader test, and the fields the detector leaves behind.
\<close>

definition be16 :: "byte list \<Rightarrow> nat \<Rightarrow> uint16" where
  "be16 r i = push_bit 8 (ucast (r ! i)) OR ucast (r ! Suc i)"

definition nordicValid :: "byte list \<Rightarrow> nat \<Rightarrow> bool" where
  "nordicValid r sz = (sz \<le> length r \<and> Checksum (take (sz - 2) r) = be16 r (sz - 2))"

definition nordicBL :: "byte list \<Rightarrow> bool" where
  "nordicBL r = (0x7400 + 0xbb2 \<le> length r \<and> r ! (0x7400 + 0xbb0) = 0x04 \<and> r ! (0x7400 + 0xbb1) = 0x6d)"

definition nordicFields :: "Firmware \<Rightarrow> bool \<Rightarrow> Firmware" where
  "nordicFields f bl =
     (let r = raw f; f1 = f\<lparr>HasBL := bl\<rparr>
      in if length r < 0x6400 then f1
         else if nordicValid r 0x6400 \<or> length r < 0x6800
         then f1\<lparr>StartOffset := 0, LastOffset := 0x63ff, Size := 0x6400, CRC := be16 r 0x63fe\<rparr>
         else f1\<lparr>StartOffset := 0, LastOffset := 0x67ff, Size := 0x6800, CRC := be16 r 0x67fe\<rparr>)"


text \<open>
  The entity after the records \<open>(len 1, addr 0x100)\<close> and \<open>(len 8, addr 0x4F8)\<close> have
  been loaded, and the entity that the trim makes of it: a buffer of \<open>0x400\<close> bytes with
  \<open>6D 04\<close> at \<open>0x3F8\<close> and no marker, with the layout fields of the loader.
\<close>

definition exPushed :: Firmware where
  "exPushed = pushData (pushData zeroFirmware 0x100 0x101 [0]) 0x4F8 0x500 [0x6D, 0x04, 0, 0, 0, 0, 0, 0]"

definition exLoaded :: Firmware where
  "exLoaded =
     zeroFirmware\<lparr>RawData := Some (0 # replicate 0x3F7 0xFF @ [0x6D, 0x04, 0, 0, 0, 0, 0, 0]),
                  StartOffset := 0x100, Size := 0x400, LastOffset := 0x4FF\<rparr>"

text \<open>
  The buffer holds the window \<open>[StartOffset, StartOffset + Size)\<close> of the image, and the
  end of the window is a 16-bit value: the invariant of the data model that ties the
  buffer to the layout fields.
\<close>

definition holdsImage :: "Firmware \<Rightarrow> bool" where
  "holdsImage f \<longleftrightarrow>
     unat (StartOffset f) + unat (Size f) \<le> length (raw f) \<and>
     unat (StartOffset f) + unat (Size f) < 2 ^ 16"

text \<open>
  Notions for the order of the substitutions. \<open>occ old s p\<close>: the pattern \<open>old\<close> occurs
  in \<open>s\<close> at position \<open>p\<close>. \<open>selmask s old k\<close> follows the search of \<open>Replace\<close> and
  marks, in every occurrence that the search replaces, the byte at offset \<open>k\<close> of the
  pattern.
\<close>

definition occ :: "'a list \<Rightarrow> 'a list \<Rightarrow> nat \<Rightarrow> bool" where
  "occ old s p \<longleftrightarrow> take (length old) (drop p s) = old"

function selmask :: "'a list \<Rightarrow> 'a list \<Rightarrow> nat \<Rightarrow> bool list" where
  "selmask [] old k = []"
| "selmask (x # xs) old k =
     (if old \<noteq> [] \<and> take (length old) (x # xs) = old
      then (replicate (length old) False)[k := True] @ selmask (drop (length old) (x # xs)) old k
      else False # selmask xs old k)"
  by pat_completeness auto
termination
  by (relation "measure (\<lambda>(s, old, k). length s)") (auto simp: neq_Nil_conv)

text \<open>
  A substitution of the patcher changes one byte of its pattern: \<open>patch_k\<close> is the offset
  of that byte and \<open>patch_d\<close> its new value. A pattern without overlap cannot occur at
  two positions that share a byte. \<open>indep a b\<close>: the new byte of \<open>b\<close> is no byte of the
  pattern of \<open>a\<close>, and the byte that \<open>b\<close> changes occurs in the pattern of \<open>a\<close> only as
  the byte that \<open>a\<close> changes, behind a different byte.
\<close>

definition patch_k :: "'a list \<times> 'a list \<Rightarrow> nat" where
  "patch_k p = length (takeWhile (\<lambda>(a, b). a = b) (zip (fst p) (snd p)))"

definition patch_d :: "'a list \<times> 'a list \<Rightarrow> 'a" where
  "patch_d p = snd p ! patch_k p"

definition wfPatch :: "'a list \<times> 'a list \<Rightarrow> bool" where
  "wfPatch p \<longleftrightarrow> patch_k p < length (fst p) \<and> snd p = (fst p)[patch_k p := patch_d p]"

definition noOverlap :: "'a list \<Rightarrow> bool" where
  "noOverlap old \<longleftrightarrow>
     (\<forall>q \<in> {1..<length old}. \<exists>j \<in> {0..<length old - q}. old ! (q + j) \<noteq> old ! j)"

definition indep :: "'a list \<times> 'a list \<Rightarrow> 'a list \<times> 'a list \<Rightarrow> bool" where
  "indep a b \<longleftrightarrow>
     patch_d b \<notin> set (fst a) \<and>
     (\<forall>j \<in> {0..<length (fst a)}.
        fst a ! j = fst b ! patch_k b \<longrightarrow>
          j = patch_k a \<and> 0 < patch_k a \<and> 0 < patch_k b \<and>
          fst a ! (patch_k a - 1) \<noteq> fst b ! (patch_k b - 1))"

text \<open>The tenth and the fourteenth substitution.\<close>

definition p10 :: "byte list \<times> byte list" where "p10 = ([0x79, 0x19], [0x79, 0x1b])"

definition p14 :: "byte list \<times> byte list" where "p14 = ([0x05, 0x79, 0x19], [0x05, 0x79, 0x1b])"

text \<open>
  A TI image in the making: a payload, its checksum (low byte first) and the marker. The
  examples below are the payload of \<open>0x5FFA\<close> bytes \<open>0x22\<close>, the entity that
  \<open>ParseFirmwareBin\<close> returns for its image, the image that the patcher makes of it, and
  the entity that \<open>ParseFirmwareBin\<close> returns for the patched image.
\<close>

definition sealed :: "byte list \<Rightarrow> byte list" where
  "sealed p = p @ [ucast (Checksum p AND 0x00ff), ucast (drop_bit 8 (Checksum p))] @ marker"

definition exPayload :: "byte list" where
  "exPayload = replicate 0x5FFA 0x22"

definition exBase :: Firmware where
  "exBase = zeroFirmware\<lparr>RawData := Some (sealed exPayload), Size := 0x6000, LastOffset := 0x5FFF,
              CRC := Checksum exPayload, TailPos := 0x5FFA, TargetType := FIRMWARE_TARGET_TYPE_TI\<rparr>"

definition exPatched :: "byte list" where
  "exPatched = sealed (exPayload @ replicate 0x800 0xFF)"

definition exRepatch :: Firmware where
  "exRepatch = zeroFirmware\<lparr>RawData := Some exPatched, Size := 0x6800, LastOffset := 0x67FF,
              CRC := Checksum (exPayload @ replicate 0x800 0xFF), TailPos := 0x67FA,
              TargetType := FIRMWARE_TARGET_TYPE_TI\<rparr>"

section \<open>The hex record loader: data records\<close>

lemma record_addr_eq: "record_addr h = unat (h ! 1) * 256 + unat (h ! 2)"
proof -
  have "unat (h ! 2) < 2 ^ 8"
    using unsigned_less [of "h ! 2"] by simp
  then have "\<And>n. \<not> bit (push_bit 8 (unat (h ! 1))) n \<or> \<not> bit (unat (h ! 2)) n"
    by (metis bit_push_bit_iff bit_take_bit_iff not_le take_bit_nat_eq_self)
  then have "push_bit 8 (unat (h ! 1)) + unat (h ! 2) = push_bit 8 (unat (h ! 1)) OR unat (h ! 2)"
    by (rule disjunctive_add)
  then show ?thesis
    by (simp add: record_addr_def push_bit_eq_mult)
qed

lemma record_addr_less: "record_addr h < 65536"
proof -
  have "unat (h ! 1) < 256" "unat (h ! 2) < 256"
    using unsigned_less [of "h ! 1"] unsigned_less [of "h ! 2"] by simp_all
  then show ?thesis by (simp add: record_addr_eq)
qed

lemma unat_four_plus: "unat (len :: byte) \<le> 251 \<Longrightarrow> unat (4 + len) = 4 + unat len"
  using unat_add_lem [of 4 len] by simp

lemma slice_data:
  "4 + unat (len :: byte) \<le> length h \<Longrightarrow> unat len \<le> 251 \<Longrightarrow>
   slice h 4 (unat (4 + len)) = Inr (take (unat len) (drop 4 h))"
  by (simp add: slice_def unat_four_plus)


lemma raw_pushData:
  "raw (pushData f a (a + length data) data) =
     take a (padFF (raw f) (a + length data)) @ data @
     drop (a + length data) (padFF (raw f) (a + length data))"
  by (simp add: pushData_def Let_def raw_def padFF_def copy_into_def split: option.splits)

lemma length_raw_pushData:
  "length (raw (pushData f a (a + length data) data)) = max (length (raw f)) (a + length data)"
  by (simp add: raw_pushData padFF_def) 

lemma length_padFF: "length (padFF r n) = max (length r) n"
  by (simp add: padFF_def)

lemma nth_padFF: "i < max (length r) n \<Longrightarrow> padFF r n ! i = (if i < length r then r ! i else 0xFF)"
  by (simp add: padFF_def nth_append)

lemma nth_splice:
  assumes "a + length data \<le> length P" "i < length P"
  shows "(take a P @ data @ drop (a + length data) P) ! i =
     (if a \<le> i \<and> i < a + length data then data ! (i - a) else P ! i)"
proof -
  have la: "length (take a P) = a" using assms by simp
  consider "i < a" | "a \<le> i" "i < a + length data" | "a + length data \<le> i" by linarith
  then show ?thesis
  proof cases
    case 1
    then show ?thesis using la by (simp add: nth_append)
  next
    case 2
    then have "i - a < length data" by linarith
    with 2 show ?thesis using la by (simp add: nth_append)
  next
    case 3
    then have "\<not> i < a" "\<not> i - a < length data" by linarith+
    then have "(take a P @ data @ drop (a + length data) P) ! i =
        drop (a + length data) P ! (i - a - length data)"
      using la by (simp add: nth_append)
    also have "\<dots> = P ! i" using 3 assms by simp
    finally show ?thesis using 3 by simp
  qed
qed

lemma nth_raw_pushData:
  assumes "i < max (length (raw f)) (a + length data)"
  shows "raw (pushData f a (a + length data) data) ! i =
     (if a \<le> i \<and> i < a + length data then data ! (i - a)
      else if i < length (raw f) then raw f ! i else 0xFF)"
proof -
  have "raw (pushData f a (a + length data) data) ! i =
     (if a \<le> i \<and> i < a + length data then data ! (i - a)
      else padFF (raw f) (a + length data) ! i)"
    unfolding raw_pushData
    using assms by (intro nth_splice) (simp_all add: length_padFF)
  then show ?thesis using assms by (simp add: nth_padFF)
qed


lemma unat_four_plus_ge:
  assumes "4 \<le> unat (4 + len)" shows "unat (len :: byte) \<le> 251"
proof (rule ccontr)
  assume "\<not> unat len \<le> 251"
  then have "256 \<le> 4 + unat len" by simp
  moreover have "unat len < 256" using unsigned_less [of len] by simp
  moreover have "unat (4 + len) = (4 + unat len) mod 256"
    by (simp add: unat_word_ariths)
  ultimately have "unat (4 + len) = 4 + unat len - 256"
    by (simp add: mod_if)
  with \<open>unat len < 256\<close> assms show False by simp
qed

lemma pushRawHexLine_data:
  assumes "pushRawHexLine f h = Inr (f', None)" "h ! 3 = 0"
  shows "4 + unat (h ! 0) \<le> length h" "unat (h ! 0) \<le> 251"
    "length (record_data h) = unat (h ! 0)"
    "f' = pushData f (record_addr h) (record_addr h + length (record_data h)) (record_data h)"
proof -
  from assms have len4: "4 \<le> length h"
    by (auto simp: pushRawHexLine_def split: if_splits)
  from assms len4 have sl: "4 \<le> unat (4 + h ! 0) \<and> unat (4 + h ! 0) \<le> length h"
    by (auto simp: pushRawHexLine_def slice_def Let_def split: if_splits)
  then show b: "unat (h ! 0) \<le> 251" using unat_four_plus_ge by blast
  with sl show a: "4 + unat (h ! 0) \<le> length h" by (simp add: unat_four_plus)
  then show c: "length (record_data h) = unat (h ! 0)" by (simp add: record_data_def)
  from assms len4 a b show "f' = pushData f (record_addr h) (record_addr h + length (record_data h)) (record_data h)"
    unfolding c by (simp add: pushRawHexLine_def Let_def slice_data record_data_def)
qed

lemma pushRawHexLine_accepts:
  assumes "4 + unat (h ! 0) \<le> length h" "unat (h ! 0) \<le> 251" "h ! 3 = 0"
  shows "pushRawHexLine f h = Inr (pushData f (record_addr h) (record_end h) (record_data h), None)"
  using assms by (simp add: pushRawHexLine_def Let_def slice_data record_data_def record_end_def)

lemma raw_fresh: "RawData f = None \<Longrightarrow> raw f = []"
  by (simp add: raw_def)

text \<open>
  Claim C8. Two data records are written to a fresh entity, one after the other, in either
  order of their addresses. Every byte of the buffer between the end of the lower record
  and the start of the higher one is \<open>0xFF\<close>: the region is a run of \<open>0xFF\<close> as long as
  the gap.
\<close>

theorem C8_gap:
  assumes fresh: "RawData f = None"
    and a: "pushRawHexLine f ra = Inr (f1, None)" "ra ! 3 = 0"
    and b: "pushRawHexLine f1 rb = Inr (f2, None)" "rb ! 3 = 0"
  shows "(record_end ra \<le> record_addr rb \<longrightarrow>
            take (record_addr rb - record_end ra) (drop (record_end ra) (raw f2))
              = replicate (record_addr rb - record_end ra) 0xFF) \<and>
         (record_end rb \<le> record_addr ra \<longrightarrow>
            take (record_addr ra - record_end rb) (drop (record_end rb) (raw f2))
              = replicate (record_addr ra - record_end rb) 0xFF)"
proof -
  note A = pushRawHexLine_data [OF a]
  note B = pushRawHexLine_data [OF b]
  have ea: "record_end ra = record_addr ra + length (record_data ra)"
    and eb: "record_end rb = record_addr rb + length (record_data rb)"
    by (simp_all add: record_end_def A(3) B(3))
  have len1: "length (raw f1) = record_end ra"
    unfolding A(4) ea by (simp add: length_raw_pushData raw_fresh [OF fresh])
  have nth1: "raw f1 ! i = 0xFF" if "i < record_addr ra" for i
    unfolding A(4) using that
    by (subst nth_raw_pushData) (simp_all add: raw_fresh [OF fresh])
  have len2: "length (raw f2) = max (record_end ra) (record_end rb)"
    unfolding B(4) eb by (simp add: length_raw_pushData len1)
  have nth2: "raw f2 ! i =
      (if record_addr rb \<le> i \<and> i < record_end rb then record_data rb ! (i - record_addr rb)
       else if i < record_end ra then raw f1 ! i else 0xFF)"
    if "i < max (record_end ra) (record_end rb)" for i
    unfolding B(4) eb using that
    by (subst nth_raw_pushData) (simp_all add: len1 eb)
  have ab: "record_addr ra \<le> record_end ra" "record_addr rb \<le> record_end rb"
    by (simp_all add: record_end_def)
  show ?thesis
  proof (intro conjI impI)
    assume g: "record_end ra \<le> record_addr rb"
    show "take (record_addr rb - record_end ra) (drop (record_end ra) (raw f2))
        = replicate (record_addr rb - record_end ra) 0xFF"
    proof (rule nth_equalityI)
      show "length (take (record_addr rb - record_end ra) (drop (record_end ra) (raw f2)))
          = length (replicate (record_addr rb - record_end ra) (0xFF :: byte))"
        using g ab by (simp add: len2)
    next
      fix i assume "i < length (take (record_addr rb - record_end ra) (drop (record_end ra) (raw f2)))"
      then have i: "i < record_addr rb - record_end ra" by simp
      then have lt: "record_end ra + i < record_addr rb" "\<not> record_end ra + i < record_end ra"
        using g by linarith+
      then have "raw f2 ! (record_end ra + i) = 0xFF"
        using ab by (subst nth2) simp_all
      then show "take (record_addr rb - record_end ra) (drop (record_end ra) (raw f2)) ! i
          = replicate (record_addr rb - record_end ra) 0xFF ! i"
        using i g ab by (simp add: len2)
    qed
  next
    assume g: "record_end rb \<le> record_addr ra"
    show "take (record_addr ra - record_end rb) (drop (record_end rb) (raw f2))
        = replicate (record_addr ra - record_end rb) 0xFF"
    proof (rule nth_equalityI)
      show "length (take (record_addr ra - record_end rb) (drop (record_end rb) (raw f2)))
          = length (replicate (record_addr ra - record_end rb) (0xFF :: byte))"
        using g ab by (simp add: len2)
    next
      fix i assume "i < length (take (record_addr ra - record_end rb) (drop (record_end rb) (raw f2)))"
      then have i: "i < record_addr ra - record_end rb" by simp
      then have lt: "record_end rb + i < record_addr ra" "\<not> record_end rb + i < record_end rb"
        using g by linarith+
      then have "raw f2 ! (record_end rb + i) = raw f1 ! (record_end rb + i)"
        using ab by (subst nth2) simp_all
      also have "\<dots> = 0xFF" using lt by (intro nth1)
      finally show "take (record_addr ra - record_end rb) (drop (record_end rb) (raw f2)) ! i
          = replicate (record_addr ra - record_end rb) 0xFF ! i"
        using i g ab by (simp add: len2)
    qed
  qed
qed


text \<open>
  The theorem at the records \<open>(len 4, addr 0x10)\<close> and then \<open>(len 4, addr 0)\<close>: the twelve
  bytes between them are \<open>0xFF\<close>.
\<close>

theorem C8_gap_witness:
  "pushRawHexLine zeroFirmware [4, 0, 0x10, 0, 0xAA, 0xBB, 0xCC, 0xDD]
     = Inr (pushData zeroFirmware 16 20 [0xAA, 0xBB, 0xCC, 0xDD], None) \<and>
   pushRawHexLine (pushData zeroFirmware 16 20 [0xAA, 0xBB, 0xCC, 0xDD]) [4, 0, 0, 0, 1, 2, 3, 4]
     = Inr (pushData (pushData zeroFirmware 16 20 [0xAA, 0xBB, 0xCC, 0xDD]) 0 4 [1, 2, 3, 4], None) \<and>
   take 12 (drop 4 (raw (pushData (pushData zeroFirmware 16 20 [0xAA, 0xBB, 0xCC, 0xDD]) 0 4 [1, 2, 3, 4])))
     = replicate 12 0xFF"
proof -
  let ?ra = "[4, 0, 0x10, 0, 0xAA, 0xBB, 0xCC, 0xDD] :: byte list"
  let ?rb = "[4, 0, 0, 0, 1, 2, 3, 4] :: byte list"
  let ?f1 = "pushData zeroFirmware 16 20 [0xAA, 0xBB, 0xCC, 0xDD]"
  let ?f2 = "pushData ?f1 0 4 [1, 2, 3, 4]"
  have fresh: "RawData zeroFirmware = None" by (simp add: zeroFirmware_def)
  have a: "pushRawHexLine zeroFirmware ?ra = Inr (?f1, None)"
    by (simp add: pushRawHexLine_def slice_def record_addr_def)
  have b: "pushRawHexLine ?f1 ?rb = Inr (?f2, None)"
    by (simp add: pushRawHexLine_def slice_def record_addr_def)
  have e: "record_end ?rb = 4" "record_addr ?ra = 16"
    by (simp_all add: record_end_def record_addr_def)
  from C8_gap [OF fresh a _ b] e
  have "take 12 (drop 4 (raw ?f2)) = replicate 12 0xFF" by simp
  with a b show ?thesis by simp
qed

lemma StartOffset_pushData:
  "StartOffset (pushData f a rs d) =
     (if RawData f = None then of_nat a
      else if (of_nat a :: uint16) < StartOffset f then of_nat a else StartOffset f)"
  by (auto simp add: pushData_def Let_def)

lemma Size_pushData:
  "Size (pushData f a rs d) =
     (if (of_nat rs :: uint16) > Size f + StartOffset (pushData f a rs d)
      then of_nat rs - StartOffset (pushData f a rs d) else Size f)"
  by (simp add: pushData_def Let_def)

lemma LastOffset_pushData:
  "LastOffset (pushData f a rs d) =
     (if (of_nat rs :: uint16) > Size f + StartOffset (pushData f a rs d)
      then StartOffset (pushData f a rs d) + Size (pushData f a rs d) - 1 else LastOffset f)"
  by (simp add: pushData_def Let_def)

lemma take_drop_raw_pushData:
  "take (length data) (drop a (raw (pushData f a (a + length data) data))) = data"
proof -
  have "length (take a (padFF (raw f) (a + length data))) = a"
    by (simp add: length_padFF)
  then show ?thesis
    unfolding raw_pushData by simp
qed

lemma raw_trim: "trim f = Inr g \<Longrightarrow>
  raw g = take (unat (StartOffset f + Size f) - unat (StartOffset f)) (drop (unat (StartOffset f)) (raw f))
  \<and> unat (StartOffset f) \<le> unat (StartOffset f + Size f) \<and> unat (StartOffset f + Size f) \<le> length (raw f)"
  by (auto simp: trim_def slice_def raw_def split: if_splits option.splits)

lemma length_raw_trim:
  assumes "trim f = Inr g"
  shows "unat (StartOffset f) + length (raw g) = unat (StartOffset f + Size f)"
proof -
  from raw_trim [OF assms]
  have r: "raw g = take (unat (StartOffset f + Size f) - unat (StartOffset f)) (drop (unat (StartOffset f)) (raw f))"
    and lo: "unat (StartOffset f) \<le> unat (StartOffset f + Size f)"
    and hi: "unat (StartOffset f + Size f) \<le> length (raw f)"
    by blast+
  have "length (raw g) = unat (StartOffset f + Size f) - unat (StartOffset f)"
    unfolding r using lo hi by (simp add: min_absorb2)
  with lo show ?thesis by linarith
qed

text \<open>
  Claim C10. A data record whose end address \<open>address + length\<close> exceeds \<open>0xFFFF\<close> is
  stored in the buffer at its full address, beyond index \<open>0xFFFF\<close>. \<open>Size\<close> and
  \<open>LastOffset\<close> are computed from the end address truncated to 16 bits. The upper
  bound \<open>StartOffset + Size\<close> of the trim, a 16-bit sum, is below the end of the record,
  so the trimmed buffer ends before the last byte of the record.
\<close>

theorem C10_truncated:
  assumes "pushRawHexLine f h = Inr (f', None)" "h ! 3 = 0" "record_end h > 0xFFFF"
  shows "record_end h \<le> length (raw f') \<and>
         take (unat (h ! 0)) (drop (record_addr h) (raw f')) = record_data h \<and>
         Size f' = (if (word_of_nat (record_end h mod 2 ^ 16) :: uint16) > Size f + StartOffset f'
                    then word_of_nat (record_end h mod 2 ^ 16) - StartOffset f' else Size f) \<and>
         LastOffset f' = (if (word_of_nat (record_end h mod 2 ^ 16) :: uint16) > Size f + StartOffset f'
                    then StartOffset f' + Size f' - 1 else LastOffset f) \<and>
         unat (StartOffset f' + Size f') < record_end h \<and>
         (case trim f' of Inl p \<Rightarrow> True
          | Inr g \<Rightarrow> unat (StartOffset f') + length (raw g) < record_end h)"
proof -
  note A = pushRawHexLine_data [OF assms(1,2)]
  have e: "record_end h = record_addr h + length (record_data h)"
    by (simp add: record_end_def A(3))
  have w: "(word_of_nat (record_end h mod 2 ^ 16) :: uint16) = of_nat (record_end h)"
    by (simp add: word_of_nat_eq_iff take_bit_eq_mod)
  have 1: "record_end h \<le> length (raw f')"
    unfolding A(4) e by (simp add: length_raw_pushData)
  have 2: "take (unat (h ! 0)) (drop (record_addr h) (raw f')) = record_data h"
    unfolding A(4) A(3) [symmetric] by (rule take_drop_raw_pushData)
  have 3: "Size f' = (if (word_of_nat (record_end h mod 2 ^ 16) :: uint16) > Size f + StartOffset f'
                    then word_of_nat (record_end h mod 2 ^ 16) - StartOffset f' else Size f)"
    unfolding w unfolding A(4) e by (rule Size_pushData)
  have 4: "LastOffset f' = (if (word_of_nat (record_end h mod 2 ^ 16) :: uint16) > Size f + StartOffset f'
                    then StartOffset f' + Size f' - 1 else LastOffset f)"
    unfolding w unfolding A(4) e by (rule LastOffset_pushData)
  have "unat (StartOffset f' + Size f') < 2 ^ 16"
    using unsigned_less [of "StartOffset f' + Size f'"] by simp
  with assms(3) have 5: "unat (StartOffset f' + Size f') < record_end h" by simp
  have 6: "(case trim f' of Inl p \<Rightarrow> True
          | Inr g \<Rightarrow> unat (StartOffset f') + length (raw g) < record_end h)"
  proof (cases "trim f'")
    case (Inl p)
    then show ?thesis by simp
  next
    case (Inr g)
    from length_raw_trim [OF Inr] have "unat (StartOffset f') + length (raw g) \<le> unat (StartOffset f' + Size f')"
      by simp
    with 5 Inr show ?thesis by simp
  qed
  from 1 2 3 4 5 6 show ?thesis by blast
qed

text \<open>
  The theorem at the record of address \<open>0xFFF0\<close> and length \<open>0x20\<close>, written to the
  zero entity: the buffer has \<open>0x10010\<close> bytes and holds the data, \<open>Size\<close> stays 0 and
  the trim leaves an empty buffer.
\<close>

theorem C10_truncated_witness:
  "pushRawHexLine zeroFirmware (0x20 # 0xFF # 0xF0 # 0x00 # replicate 32 0xAB)
     = Inr (pushData zeroFirmware 0xFFF0 0x10010 (replicate 32 0xAB), None) \<and>
   length (raw (pushData zeroFirmware 0xFFF0 0x10010 (replicate 32 0xAB))) = 0x10010 \<and>
   take 32 (drop 0xFFF0 (raw (pushData zeroFirmware 0xFFF0 0x10010 (replicate 32 0xAB)))) = replicate 32 0xAB \<and>
   StartOffset (pushData zeroFirmware 0xFFF0 0x10010 (replicate 32 0xAB)) = 0xFFF0 \<and>
   Size (pushData zeroFirmware 0xFFF0 0x10010 (replicate 32 0xAB)) = 0 \<and>
   LastOffset (pushData zeroFirmware 0xFFF0 0x10010 (replicate 32 0xAB)) = 0 \<and>
   map_sum id raw (trim (pushData zeroFirmware 0xFFF0 0x10010 (replicate 32 0xAB))) = Inr []"
proof -
  let ?h = "0x20 # 0xFF # 0xF0 # 0x00 # replicate 32 (0xAB :: byte)"
  let ?f' = "pushData zeroFirmware 0xFFF0 0x10010 (replicate 32 0xAB)"
  have ra: "record_addr ?h = 0xFFF0" by (simp add: record_addr_def)
  have re: "record_end ?h = 0x10010" by (simp add: record_end_def ra)
  have rd: "record_data ?h = replicate 32 0xAB" by (simp add: record_data_def)
  have a: "pushRawHexLine zeroFirmware ?h = Inr (?f', None)"
    using pushRawHexLine_accepts [of ?h zeroFirmware] by (simp add: ra re rd)
  have z: "RawData zeroFirmware = None" "Size zeroFirmware = 0" "LastOffset zeroFirmware = 0"
    by (simp_all add: zeroFirmware_def)
  have so: "StartOffset ?f' = 0xFFF0" by (simp add: StartOffset_pushData z)
  have len: "length (raw ?f') = 0x10010"
    using length_raw_pushData [of zeroFirmware "0xFFF0" "replicate 32 0xAB"]
    by (simp add: raw_fresh [OF z(1)])
  from C10_truncated [OF a] re
  have c: "take 32 (drop 0xFFF0 (raw ?f')) = replicate 32 0xAB" "Size ?f' = 0" "LastOffset ?f' = 0"
    by (simp_all add: ra rd so z)
  have "trim ?f' = Inr (?f'\<lparr>RawData := Some []\<rparr>)"
    by (simp add: trim_def slice_def so c len) (simp add: pushData_def Let_def z)
  then have "map_sum id raw (trim ?f') = Inr []" by (simp add: raw_def)
  with a len c so show ?thesis by simp
qed


section \<open>Evaluating the loader\<close>

lemma hexval_simps:
  "hexval CHR ''0'' = Some 0" "hexval CHR ''1'' = Some 1" "hexval CHR ''2'' = Some 2"
  "hexval CHR ''3'' = Some 3" "hexval CHR ''4'' = Some 4" "hexval CHR ''5'' = Some 5"
  "hexval CHR ''6'' = Some 6" "hexval CHR ''7'' = Some 7" "hexval CHR ''8'' = Some 8"
  "hexval CHR ''9'' = Some 9" "hexval CHR ''A'' = Some 10" "hexval CHR ''B'' = Some 11"
  "hexval CHR ''C'' = Some 12" "hexval CHR ''D'' = Some 13" "hexval CHR ''E'' = Some 14"
  "hexval CHR ''F'' = Some 15"
  by (simp_all add: hexval_def)

text \<open>
  Claim C4, at the records \<open>(len 4, addr 0x10)\<close> and then \<open>(len 4, addr 0)\<close>. The start
  offset follows the lower address, but \<open>Size\<close> and \<open>LastOffset\<close> keep the values of the
  first record: \<open>Size\<close> is 4 where the span of the records is \<open>0x14\<close>, \<open>LastOffset\<close> is
  \<open>0x13\<close> where \<open>StartOffset + Size - 1\<close> is 3, and the trim keeps four bytes of the
  twenty.
\<close>

theorem C4_out_of_order:
  "map_sum id (\<lambda>f. (StartOffset f, Size f, LastOffset f, raw f))
     (hexLoop zeroFirmware ['':04001000AABBCCDDDE'', '':0400000001020304F2''])
     = Inr (0, 4, 0x13, [1, 2, 3, 4] @ replicate 12 0xFF @ [0xAA, 0xBB, 0xCC, 0xDD]) \<and>
   map_sum id raw (bind (hexLoop zeroFirmware ['':04001000AABBCCDDDE'', '':0400000001020304F2'']) trim)
     = Inr [1, 2, 3, 4]"
  by (simp add: hexval_simps pushRawHexLine_def slice_def record_addr_def pushData_def
      zeroFirmware_def raw_def copy_into_def Let_def bind_def trim_def)

section \<open>The hex record loader: signature records\<close>


lemma hexLoop_record:
  assumes "l \<noteq> []" "DecodeString (tl l) = Some h" "4 \<le> length h" "h ! 3 = 0x00 \<or> h ! 3 = 0xfd"
    "pushRawHexLine f h = Inr (f', e)"
  shows "hexLoop f (l # ls) = hexLoop f' ls"
  using assms by auto

lemma pushRawHexLine_wraps:
  assumes "4 \<le> length h" "251 < unat (h ! 0)"
  shows "pushRawHexLine f h = Inl SliceBoundsOutOfRange"
proof -
  have "unat (4 + h ! 0) < 4"
    using assms(2) unat_four_plus_ge [of "h ! 0"] by linarith
  with assms(1) show ?thesis
    by (simp add: pushRawHexLine_def Let_def slice_def)
qed


section \<open>The format detectors: what an attempt writes\<close>

lemma bind_Inr_iff: "bind m k = Inr y \<longleftrightarrow> (\<exists>x. m = Inr x \<and> k x = Inr y)"
  by (cases m) (simp_all add: bind_def)

lemma bind_Inr [simp]: "bind (Inr x) k = k x"
  by (simp add: bind_def)

lemma bind_Inl [simp]: "bind (Inl p) k = Inl p"
  by (simp add: bind_def)

lemma slice_all: "slice s 0 (length s) = Inr s"
  by (simp add: slice_def)

lemma slice_Inr_iff: "slice s lo hi = Inr t \<longleftrightarrow> lo \<le> hi \<and> hi \<le> length s \<and> t = take (hi - lo) (drop lo s)"
  by (auto simp: slice_def)

lemma index_Inr_iff: "index s i = Inr x \<longleftrightarrow> i < length s \<and> x = s ! i"
  by (auto simp: index_def)

lemma raw_update [simp]:
  "raw (f\<lparr>Size := a\<rparr>) = raw f" "raw (f\<lparr>StartOffset := b\<rparr>) = raw f"
  "raw (f\<lparr>LastOffset := c\<rparr>) = raw f" "raw (f\<lparr>HasBL := d\<rparr>) = raw f"
  "raw (f\<lparr>CRC := e\<rparr>) = raw f" "raw (f\<lparr>TailPos := g\<rparr>) = raw f"
  "raw (f\<lparr>Signature := h\<rparr>) = raw f" "raw (f\<lparr>HasSignature := i\<rparr>) = raw f"
  "raw (f\<lparr>TargetType := j\<rparr>) = raw f" "raw (f\<lparr>RawData := Some r\<rparr>) = r"
  by (simp_all add: raw_def)

lemma ParseFirmwareTI_short:
  "length (raw f) < 0x400 \<Longrightarrow> ParseFirmwareTI f = Inl SliceBoundsOutOfRange"
  by (simp add: ParseFirmwareTI_def slice_def)

lemma ParseFirmwareTI_head:
  assumes "0x400 \<le> length (raw f)"
  shows "ParseFirmwareTI f =
     (let f1 = f\<lparr>HasBL := tiBL (raw f), StartOffset := tiStart (raw f)\<rparr>
      in case Index (drop (unat (tiStart (raw f))) (raw f)) marker of
           None \<Rightarrow> Inr (f1, Some ErrTIMagicMissing)
         | Some pos \<Rightarrow>
             let f4 = f1\<lparr>Size := of_nat pos + 4,
                        LastOffset := of_nat pos + 4 + tiStart (raw f) - 1,
                        TailPos := tiStart (raw f) + (of_nat pos + 4) - 6\<rparr>
             in bind (index (raw f) (unat (TailPos f4 + 1))) (\<lambda>hi.
                bind (index (raw f) (unat (TailPos f4))) (\<lambda>lo.
                  let f5 = f4\<lparr>CRC := push_bit 8 (ucast hi) OR ucast lo\<rparr>
                  in bind (slice (raw f) (unat (tiStart (raw f)))
                             (unat (tiStart (raw f) + (of_nat pos + 4) - 6))) (\<lambda>d.
                       if Checksum d \<noteq> CRC f5
                       then Inr (f5, Some (ErrTIWrongCRC (Checksum d) (CRC f5)))
                       else Inr (f5, None)))))"
proof -
  have s: "slice (raw f) 0 0x400 = Inr (take 0x400 (raw f))"
    using assms by (simp add: slice_def)
  have n: "take 0x400 (raw f) ! 0x3f8 = raw f ! 0x3f8" "take 0x400 (raw f) ! 0x3f9 = raw f ! 0x3f9"
    by simp_all
  have u: "unat (tiStart (raw f)) \<le> length (raw f)"
    using assms by (simp add: tiStart_def)
  have s2: "slice (raw f) (unat (tiStart (raw f))) (length (raw f)) = Inr (drop (unat (tiStart (raw f))) (raw f))"
    using u by (simp add: slice_def)
  have s3: "slice (raw f) 1024 (length (raw f)) = Inr (drop 1024 (raw f))"
    "slice (raw f) 0 (length (raw f)) = Inr (raw f)"
    using assms by (simp_all add: slice_def)
  show ?thesis
    unfolding ParseFirmwareTI_def s bind_Inr n
    by (cases "tiBL (raw f)")
       (simp_all add: tiBL_def [symmetric] tiStart_def Let_def s3 split: option.splits cong: if_cong)
qed


lemma nordicHasBL_short: "length r \<le> 0x7400 \<Longrightarrow> nordicHasBL r = Inr False"
  by (simp add: nordicHasBL_def)

lemma nordicHasBL_long: "0x7400 + 0xbb2 \<le> length r \<Longrightarrow> nordicHasBL r = Inr (nordicBL r)"
  by (simp add: nordicHasBL_def nordicBL_def index_def)

lemma nordicHasBL_panic:
  "0x7400 < length r \<Longrightarrow> length r \<le> 0x7400 + 0xbb0 \<Longrightarrow> nordicHasBL r = Inl IndexOutOfRange"
  by (simp add: nordicHasBL_def index_def)

lemma nordicHasBL_ok:
  "length r \<le> 0x7400 \<or> 0x7400 + 0xbb2 \<le> length r \<Longrightarrow> nordicHasBL r = Inr (nordicBL r)"
  by (auto simp: nordicHasBL_short nordicHasBL_long) (simp add: nordicBL_def)

lemma nordicCandidate_6400:
  assumes "0x6400 \<le> length (raw f)"
  shows "nordicCandidate f 0x6400 =
     Inr (f\<lparr>StartOffset := 0, LastOffset := 0x63ff, Size := 0x6400, CRC := be16 (raw f) 0x63fe\<rparr>,
          nordicValid (raw f) 0x6400)"
  using assms
  by (simp add: nordicCandidate_def index_def slice_def be16_def nordicValid_def Let_def)

lemma nordicCandidate_6800:
  assumes "0x6800 \<le> length (raw f)"
  shows "nordicCandidate f 0x6800 =
     Inr (f\<lparr>StartOffset := 0, LastOffset := 0x67ff, Size := 0x6800, CRC := be16 (raw f) 0x67fe\<rparr>,
          nordicValid (raw f) 0x6800)"
  using assms
  by (simp add: nordicCandidate_def index_def slice_def be16_def nordicValid_def Let_def)


lemma ParseFirmwareNordic_eval:
  assumes "nordicHasBL (raw f) = Inr bl"
  shows "ParseFirmwareNordic f =
     Inr (nordicFields f bl,
          if nordicValid (raw f) 0x6400 \<or> nordicValid (raw f) 0x6800 then None
          else Some ErrNoValidImage)"
proof -
  consider "length (raw f) < 0x6400" | "0x6400 \<le> length (raw f)" "length (raw f) < 0x6800"
    | "0x6800 \<le> length (raw f)" by linarith
  then show ?thesis
  proof cases
    case 1
    then show ?thesis
      by (simp add: ParseFirmwareNordic_def assms nordicFields_def nordicValid_def)
  next
    case 2
    then have n: "\<not> nordicValid (raw f) 0x6800" by (simp add: nordicValid_def)
    from 2 show ?thesis
      by (simp add: ParseFirmwareNordic_def assms nordicFields_def nordicCandidate_6400 n Let_def)
  next
    case 3
    then have 4: "0x6400 \<le> length (raw f)" by simp
    from 3 4 show ?thesis
      by (simp add: ParseFirmwareNordic_def assms nordicFields_def nordicCandidate_6400
          nordicCandidate_6800 Let_def)
  qed
qed

lemma ParseFirmwareNordic_panic:
  "nordicHasBL (raw f) = Inl p \<Longrightarrow> ParseFirmwareNordic f = Inl p"
  by (simp add: ParseFirmwareNordic_def)

lemma ParseFirmwareNordic_Inr:
  assumes "ParseFirmwareNordic f = Inr (f', e)"
  obtains bl where "nordicHasBL (raw f) = Inr bl" "f' = nordicFields f bl"
    "e = (if nordicValid (raw f) 0x6400 \<or> nordicValid (raw f) 0x6800 then None
          else Some ErrNoValidImage)"
proof (cases "nordicHasBL (raw f)")
  case (Inl p)
  with assms show ?thesis by (simp add: ParseFirmwareNordic_panic)
next
  case (Inr bl)
  with assms that [of bl] show ?thesis by (simp add: ParseFirmwareNordic_eval)
qed

lemma nordicFields_frame:
  "TargetType (nordicFields f bl) = TargetType f" "TailPos (nordicFields f bl) = TailPos f"
  "RawData (nordicFields f bl) = RawData f" "HasBL (nordicFields f bl) = bl"
  "Signature (nordicFields f bl) = Signature f" "HasSignature (nordicFields f bl) = HasSignature f"
  by (simp_all add: nordicFields_def Let_def)

lemma nordicFields_short:
  "length (raw f) < 0x6400 \<Longrightarrow> nordicFields f bl = f\<lparr>HasBL := bl\<rparr>"
  by (simp add: nordicFields_def)

text \<open>
  Claim C6, as amended. For a buffer of at most \<open>0x7400\<close> bytes or of at least
  \<open>0x7400 + 0xBB2\<close> bytes the Nordic detector returns, and it sets \<open>HasBL\<close> exactly when
  the buffer has at least \<open>0x7400 + 0xBB2\<close> bytes and the two bytes at \<open>0x7400 + 0xBB0\<close>
  are \<open>0x04, 0x6D\<close>. Whether it succeeds is decided by the two checksum tests alone, and
  is the same whatever the flag was before.
\<close>

theorem C6_nordic_bootloader:
  assumes "length (raw f) \<le> 0x7400 \<or> 0x7400 + 0xbb2 \<le> length (raw f)"
  shows "\<exists>f' e. ParseFirmwareNordic f = Inr (f', e) \<and>
           HasBL f' = (0x7400 + 0xbb2 \<le> length (raw f) \<and> raw f ! (0x7400 + 0xbb0) = 0x04
                        \<and> raw f ! (0x7400 + 0xbb1) = 0x6d) \<and>
           (e = None) = (nordicValid (raw f) 0x6400 \<or> nordicValid (raw f) 0x6800) \<and>
           (\<forall>b. map_sum id snd (ParseFirmwareNordic (f\<lparr>HasBL := b\<rparr>)) = Inr e)"
proof -
  have bl: "nordicHasBL (raw f) = Inr (nordicBL (raw f))"
    using assms by (rule nordicHasBL_ok)
  then have bl': "nordicHasBL (raw (f\<lparr>HasBL := b\<rparr>)) = Inr (nordicBL (raw f))" for b
    by simp
  show ?thesis
    unfolding ParseFirmwareNordic_eval [OF bl] ParseFirmwareNordic_eval [OF bl']
    by (simp add: nordicFields_frame nordicBL_def)
qed

text \<open>The theorem at a buffer of \<open>0x7FB3\<close> bytes that holds the two bytes.\<close>

theorem C6_nordic_bootloader_witness:
  "\<exists>f' e. ParseFirmwareNordic (zeroFirmware\<lparr>RawData := Some (replicate 0x7fb0 0 @ [0x04, 0x6d, 0x00])\<rparr>)
             = Inr (f', e) \<and>
          HasBL f' = True \<and>
          (e = None) = (nordicValid (replicate 0x7fb0 0 @ [0x04, 0x6d, 0x00]) 0x6400
                        \<or> nordicValid (replicate 0x7fb0 0 @ [0x04, 0x6d, 0x00]) 0x6800) \<and>
          (\<forall>b. map_sum id snd (ParseFirmwareNordic
                  (zeroFirmware\<lparr>RawData := Some (replicate 0x7fb0 0 @ [0x04, 0x6d, 0x00]), HasBL := b\<rparr>))
                = Inr e)"
  using C6_nordic_bootloader [of "zeroFirmware\<lparr>RawData := Some (replicate 0x7fb0 0 @ [0x04, 0x6d, 0x00])\<rparr>"]
  by (simp add: nth_append)

text \<open>
  Claim C6 as stated fails at a buffer of exactly \<open>0x7400 + 0xBB2\<close> bytes that ends with
  \<open>0x04, 0x6D\<close>: the flag is set although the length does not exceed \<open>0x7400 + 0xBB2\<close>.
\<close>

theorem C6_boundary_counterexample:
  "map_sum id (\<lambda>(f', e). HasBL f')
     (ParseFirmwareNordic (zeroFirmware\<lparr>RawData := Some (replicate 0x7fb0 0 @ [0x04, 0x6d])\<rparr>))
     = Inr True \<and>
   \<not> 0x7400 + 0xbb2 < length (replicate 0x7fb0 (0 :: byte) @ [0x04, 0x6d])"
proof -
  let ?f = "zeroFirmware\<lparr>RawData := Some (replicate 0x7fb0 0 @ [0x04, 0x6d])\<rparr>"
  have bl: "nordicHasBL (raw ?f) = Inr True"
    by (simp add: nordicHasBL_long nordicBL_def nth_append)
  show ?thesis
    unfolding ParseFirmwareNordic_eval [OF bl] by (simp add: nordicFields_frame)
qed

lemma ParseFirmwareTI_frame:
  assumes "ParseFirmwareTI f = Inr (f', e)"
  shows "TargetType f' = TargetType f" "RawData f' = RawData f" "Signature f' = Signature f"
    "HasSignature f' = HasSignature f" "HasBL f' = tiBL (raw f)" "StartOffset f' = tiStart (raw f)"
    "e = Some ErrTIMagicMissing \<Longrightarrow> f' = f\<lparr>HasBL := tiBL (raw f), StartOffset := tiStart (raw f)\<rparr>"
proof -
  have len: "0x400 \<le> length (raw f)"
    using assms ParseFirmwareTI_short [of f] by (cases "length (raw f) < 0x400") simp_all
  note h = assms [unfolded ParseFirmwareTI_head [OF len]]
  show "TargetType f' = TargetType f" "RawData f' = RawData f" "Signature f' = Signature f"
    "HasSignature f' = HasSignature f" "HasBL f' = tiBL (raw f)" "StartOffset f' = tiStart (raw f)"
    using h by (auto simp: Let_def bind_Inr_iff split: option.splits if_splits)
  show "f' = f\<lparr>HasBL := tiBL (raw f), StartOffset := tiStart (raw f)\<rparr>" if "e = Some ErrTIMagicMissing"
    using h that by (auto simp: Let_def bind_Inr_iff split: option.splits if_splits)
qed

lemma classify_after_TI_failure:
  assumes "ParseFirmwareTI (f\<lparr>TargetType := FIRMWARE_TARGET_TYPE_UNKNOWN\<rparr>) = Inr (f1, Some e1)"
    and "ParseFirmwareNordic f1 = Inr (f2, e2)"
  shows "classify f = (if e2 = None then Inr (Some (f2\<lparr>TargetType := FIRMWARE_TARGET_TYPE_NORDIC\<rparr>), None)
                       else Inr (None, Some ErrUnsupportedFormat))"
  using assms by (simp add: classify_def)

lemma Index_None: "sub \<noteq> [] \<Longrightarrow> hd sub \<notin> set s \<Longrightarrow> Index s sub = None"
proof (induction s)
  case Nil
  then show ?case by simp
next
  case (Cons x xs)
  then have "take (length sub) (x # xs) \<noteq> sub"
    by (cases sub) auto
  with Cons show ?case by simp
qed

text \<open>
  Claim C5, as amended. The TI attempt fails and the Nordic attempt is made after it. Then
  \<open>TargetType\<close> and the buffer are as before the attempts, and the Nordic attempt has not
  written \<open>TailPos\<close>. The failed TI attempt has overwritten \<open>HasBL\<close> and \<open>StartOffset\<close>:
  they are \<open>true\<close> and \<open>0x400\<close> when the bytes at \<open>0x3F8\<close>, \<open>0x3F9\<close> of the buffer
  are \<open>6D 04\<close>, and \<open>false\<close> and 0 otherwise, whatever they were before. A TI attempt
  that fails for a missing marker has left \<open>Size\<close>,
  \<open>LastOffset\<close>, \<open>CRC\<close> and \<open>TailPos\<close> as they were; a Nordic attempt on a buffer
  shorter than \<open>0x6400\<close> fails and has left \<open>StartOffset\<close>, \<open>Size\<close>, \<open>LastOffset\<close> and
  \<open>CRC\<close> as the TI attempt left them. The classification returns no entity when the
  Nordic attempt fails too, and otherwise the entity as the two attempts left it, with
  the target type Nordic.
\<close>

theorem C5_failed_attempts:
  assumes ti: "ParseFirmwareTI f = Inr (f1, Some e1)"
    and no: "ParseFirmwareNordic f1 = Inr (f2, e2)"
  shows "TargetType f1 = TargetType f \<and> TargetType f2 = TargetType f \<and>
         RawData f2 = RawData f \<and> TailPos f2 = TailPos f1 \<and>
         HasBL f1 = tiBL (raw f) \<and> StartOffset f1 = tiStart (raw f) \<and>
         (e1 = ErrTIMagicMissing \<longrightarrow>
            (Size f1, LastOffset f1, CRC f1, TailPos f1) = (Size f, LastOffset f, CRC f, TailPos f)) \<and>
         (length (raw f) < 0x6400 \<longrightarrow>
            e2 = Some ErrNoValidImage \<and>
            (StartOffset f2, Size f2, LastOffset f2, CRC f2)
              = (StartOffset f1, Size f1, LastOffset f1, CRC f1)) \<and>
         (TargetType f = FIRMWARE_TARGET_TYPE_UNKNOWN \<longrightarrow>
            classify f = (if e2 = None
                          then Inr (Some (f2\<lparr>TargetType := FIRMWARE_TARGET_TYPE_NORDIC\<rparr>), None)
                          else Inr (None, Some ErrUnsupportedFormat)))"
proof -
  note T = ParseFirmwareTI_frame [OF ti]
  from no obtain bl where N: "f2 = nordicFields f1 bl"
    and E: "e2 = (if nordicValid (raw f1) 0x6400 \<or> nordicValid (raw f1) 0x6800 then None
          else Some ErrNoValidImage)"
    by (rule ParseFirmwareNordic_Inr)
  have r: "raw f1 = raw f" using T(2) by (simp add: raw_def)
  have 1: "TargetType f1 = TargetType f" by (rule T(1))
  have 2: "TargetType f2 = TargetType f" by (simp add: N nordicFields_frame T(1))
  have 3: "RawData f2 = RawData f" by (simp add: N nordicFields_frame T(2))
  have 4: "TailPos f2 = TailPos f1" by (simp add: N nordicFields_frame)
  have 5: "(Size f1, LastOffset f1, CRC f1, TailPos f1) = (Size f, LastOffset f, CRC f, TailPos f)"
    if "e1 = ErrTIMagicMissing"
    using T(7) that by simp
  have 6: "e2 = Some ErrNoValidImage \<and> (StartOffset f2, Size f2, LastOffset f2, CRC f2)
              = (StartOffset f1, Size f1, LastOffset f1, CRC f1)" if "length (raw f) < 0x6400"
    using that by (simp add: N E nordicFields_short r nordicValid_def)
  have 7: "classify f = (if e2 = None
                          then Inr (Some (f2\<lparr>TargetType := FIRMWARE_TARGET_TYPE_NORDIC\<rparr>), None)
                          else Inr (None, Some ErrUnsupportedFormat))"
    if "TargetType f = FIRMWARE_TARGET_TYPE_UNKNOWN"
  proof -
    from that have "f\<lparr>TargetType := FIRMWARE_TARGET_TYPE_UNKNOWN\<rparr> = f" by simp
    with ti no show ?thesis
      by (intro classify_after_TI_failure [where ?f1.0 = f1 and ?e1.0 = e1]) simp_all
  qed
  from 1 2 3 4 T(5) T(6) 5 6 7 show ?thesis by blast
qed

lemma TI_missing_example:
  "ParseFirmwareTI
     (zeroFirmware\<lparr>RawData := Some (replicate 0x400 0), StartOffset := 0x400, Size := 0x400,
                   LastOffset := 0x7ff\<rparr>)
   = Inr (zeroFirmware\<lparr>RawData := Some (replicate 0x400 0), StartOffset := 0, Size := 0x400,
                        LastOffset := 0x7ff\<rparr>, Some ErrTIMagicMissing)"
proof -
  have "Index (replicate 0x400 (0 :: byte)) marker = None"
    by (rule Index_None) (simp_all add: marker_def)
  then show ?thesis
    by (subst ParseFirmwareTI_head) (simp_all add: tiBL_def tiStart_def zeroFirmware_def raw_def Let_def)
qed

lemma TI_crc_example:
  "ParseFirmwareTI
     (zeroFirmware\<lparr>RawData := Some (0xAA # 0xBB # 0xFE # 0xC0 # 0xAD # 0xDE # replicate 0x3FA 0)\<rparr>)
   = Inr (zeroFirmware\<lparr>RawData := Some (0xAA # 0xBB # 0xFE # 0xC0 # 0xAD # 0xDE # replicate 0x3FA 0),
                        Size := 6, LastOffset := 5, CRC := 0xBBAA\<rparr>,
          Some (ErrTIWrongCRC 0xFFFF 0xBBAA))"
  by (subst ParseFirmwareTI_head)
     (simp_all add: tiBL_def tiStart_def zeroFirmware_def raw_def Let_def marker_def index_def slice_def Checksum_def)

section \<open>Examples of loads and classifications\<close>



lemma raw_pushData_eq:
  "rs = a + length data \<Longrightarrow>
   raw (pushData f a rs data) = take a (padFF (raw f) rs) @ data @ drop rs (padFF (raw f) rs)"
  by (simp add: raw_pushData)







text \<open>
  Claim C5 as stated fails. An entity loaded from a hex file with its image at
  \<open>0x400..0x7FF\<close> and no marker: the failed TI attempt has set \<open>StartOffset\<close> to 0 and
  left \<open>Size\<close> and \<open>LastOffset\<close> as the loader wrote them, and the failed Nordic attempt
  keeps that mix. A buffer with the marker and a wrong checksum: the failed TI attempt has
  written \<open>Size\<close>, \<open>LastOffset\<close> and \<open>CRC\<close>.
\<close>

theorem C5_partial_fields_counterexample:
  "ParseFirmwareTI
     (zeroFirmware\<lparr>RawData := Some (replicate 0x400 0), StartOffset := 0x400, Size := 0x400,
                   LastOffset := 0x7ff\<rparr>)
     = Inr (zeroFirmware\<lparr>RawData := Some (replicate 0x400 0), StartOffset := 0, Size := 0x400,
                          LastOffset := 0x7ff\<rparr>, Some ErrTIMagicMissing) \<and>
   ParseFirmwareTI
     (zeroFirmware\<lparr>RawData := Some (0xAA # 0xBB # 0xFE # 0xC0 # 0xAD # 0xDE # replicate 0x3FA 0)\<rparr>)
     = Inr (zeroFirmware\<lparr>RawData := Some (0xAA # 0xBB # 0xFE # 0xC0 # 0xAD # 0xDE # replicate 0x3FA 0),
                          Size := 6, LastOffset := 5, CRC := 0xBBAA\<rparr>,
            Some (ErrTIWrongCRC 0xFFFF 0xBBAA)) \<and>
   ParseFirmwareNordic
     (zeroFirmware\<lparr>RawData := Some (replicate 0x400 0), StartOffset := 0, Size := 0x400,
                   LastOffset := 0x7ff\<rparr>)
     = Inr (zeroFirmware\<lparr>RawData := Some (replicate 0x400 0), StartOffset := 0, Size := 0x400,
                          LastOffset := 0x7ff\<rparr>, Some ErrNoValidImage)"
proof -
  let ?g = "zeroFirmware\<lparr>RawData := Some (replicate 0x400 0), StartOffset := 0, Size := 0x400,
                   LastOffset := 0x7ff\<rparr>"
  have bl: "nordicHasBL (raw ?g) = Inr False" by (simp add: nordicHasBL_short)
  have nv: "\<not> nordicValid (raw ?g) 0x6400" "\<not> nordicValid (raw ?g) 0x6800"
    by (simp_all add: nordicValid_def)
  have nf: "nordicFields ?g False = ?g"
    by (simp add: nordicFields_short) (simp add: zeroFirmware_def)
  have "ParseFirmwareNordic ?g = Inr (?g, Some ErrNoValidImage)"
    unfolding ParseFirmwareNordic_eval [OF bl] nf using nv by simp
  with TI_missing_example TI_crc_example show ?thesis by blast
qed

lemma hexLoop_exPushed:
  "hexLoop zeroFirmware ['':0101000000FE'', '':0804F8006D040000000000008B''] = Inr exPushed"
proof -
  let ?a = "[1, 1, 0, 0, 0, 0xFE] :: byte list"
  let ?b = "[8, 4, 0xF8, 0, 0x6D, 0x04, 0, 0, 0, 0, 0, 0, 0x8B] :: byte list"
  let ?A = "pushData zeroFirmware 0x100 0x101 [0]"
  have da: "DecodeString (tl '':0101000000FE'') = Some ?a"
    by (simp add: hexval_simps)
  have db: "DecodeString (tl '':0804F8006D040000000000008B'') = Some ?b"
    by (simp add: hexval_simps)
  have pa: "pushRawHexLine zeroFirmware ?a = Inr (?A, None)"
    by (subst pushRawHexLine_accepts) (simp_all add: record_end_def record_addr_def record_data_def)
  have pb: "pushRawHexLine ?A ?b = Inr (exPushed, None)"
    by (subst pushRawHexLine_accepts) (simp_all add: record_end_def record_addr_def record_data_def exPushed_def)
  have "hexLoop zeroFirmware ['':0101000000FE'', '':0804F8006D040000000000008B'']
      = hexLoop ?A ['':0804F8006D040000000000008B'']"
    by (rule hexLoop_record [OF _ da _ _ pa]) simp_all
  also have "\<dots> = hexLoop exPushed []"
    by (rule hexLoop_record [OF _ db _ _ pb]) simp_all
  finally show ?thesis by simp
qed

lemma exPushed_fields:
  "raw exPushed = replicate 0x100 0xFF @ 0 # replicate 0x3F7 0xFF @ [0x6D, 0x04, 0, 0, 0, 0, 0, 0]"
  "StartOffset exPushed = 0x100" "Size exPushed = 0x400" "LastOffset exPushed = 0x4FF"
proof -
  let ?A = "pushData zeroFirmware 0x100 0x101 [0]"
  have z: "RawData zeroFirmware = None" "Size zeroFirmware = 0" "raw zeroFirmware = []"
    "LastOffset zeroFirmware = 0"
    by (simp_all add: zeroFirmware_def raw_def)
  have ra: "raw ?A = replicate 0x100 0xFF @ [0]"
    by (subst raw_pushData_eq) (simp_all add: padFF_def z)
  have nn: "RawData ?A \<noteq> None" by (simp add: pushData_def Let_def)
  have sa: "StartOffset ?A = 0x100" "Size ?A = 1"
    by (simp_all add: StartOffset_pushData Size_pushData z)
  show "raw exPushed = replicate 0x100 0xFF @ 0 # replicate 0x3F7 0xFF @ [0x6D, 0x04, 0, 0, 0, 0, 0, 0]"
    unfolding exPushed_def by (subst raw_pushData_eq) (simp_all add: padFF_def ra)
  show so: "StartOffset exPushed = 0x100"
    unfolding exPushed_def by (subst StartOffset_pushData) (simp add: nn sa)
  show sz: "Size exPushed = 0x400"
    unfolding exPushed_def by (subst Size_pushData) (simp add: so [unfolded exPushed_def] sa)
  show "LastOffset exPushed = 0x4FF"
    unfolding exPushed_def by (subst LastOffset_pushData) (simp add: so [unfolded exPushed_def] sz [unfolded exPushed_def] sa)
qed

lemma pushData_frame:
  "pushData f a rs d =
     f\<lparr>RawData := Some (raw (pushData f a rs d)), StartOffset := StartOffset (pushData f a rs d),
       Size := Size (pushData f a rs d), LastOffset := LastOffset (pushData f a rs d)\<rparr>"
  by (simp add: pushData_def Let_def raw_def)

lemma exPushed_eq:
  "exPushed = zeroFirmware\<lparr>RawData := Some (replicate 0x100 0xFF @ 0 # replicate 0x3F7 0xFF @ [0x6D, 0x04, 0, 0, 0, 0, 0, 0]),
                  StartOffset := 0x100, Size := 0x400, LastOffset := 0x4FF\<rparr>"
proof -
  let ?A = "pushData zeroFirmware 0x100 0x101 [0]"
  have "exPushed = ?A\<lparr>RawData := Some (raw exPushed), StartOffset := StartOffset exPushed,
       Size := Size exPushed, LastOffset := LastOffset exPushed\<rparr>"
    unfolding exPushed_def by (rule pushData_frame)
  also have "\<dots> = zeroFirmware\<lparr>RawData := Some (raw exPushed), StartOffset := StartOffset exPushed,
       Size := Size exPushed, LastOffset := LastOffset exPushed\<rparr>"
    by (subst pushData_frame) simp
  finally show ?thesis by (simp only: exPushed_fields)
qed

lemma trim_exPushed: "trim exPushed = Inr exLoaded"
  unfolding exPushed_eq exLoaded_def
  by (simp add: trim_def slice_def zeroFirmware_def raw_def)

lemma exLoaded_raw:
  "raw exLoaded = 0 # replicate 0x3F7 0xFF @ [0x6D, 0x04, 0, 0, 0, 0, 0, 0]"
  "length (raw exLoaded) = 0x400" "tiBL (raw exLoaded)" "tiStart (raw exLoaded) = 0x400"
  by (simp_all add: exLoaded_def tiBL_def tiStart_def nth_append nth_Cons')

lemma TI_exLoaded:
  "ParseFirmwareTI exLoaded = Inr (exLoaded\<lparr>HasBL := True, StartOffset := 0x400\<rparr>, Some ErrTIMagicMissing)"
proof -
  have len: "0x400 \<le> length (raw exLoaded)" by (simp add: exLoaded_raw(2))
  have ix: "Index (drop 0x400 (raw exLoaded)) marker = None"
    by (simp add: exLoaded_raw(2) marker_def)
  show ?thesis
    by (simp add: ParseFirmwareTI_head [OF len] exLoaded_raw(3,4) ix Let_def)
qed

lemma Nordic_exLoaded:
  "ParseFirmwareNordic (exLoaded\<lparr>HasBL := True, StartOffset := 0x400\<rparr>)
     = Inr (exLoaded\<lparr>HasBL := False, StartOffset := 0x400\<rparr>, Some ErrNoValidImage)"
proof -
  let ?g = "exLoaded\<lparr>HasBL := True, StartOffset := 0x400\<rparr>"
  have bl: "nordicHasBL (raw ?g) = Inr False" by (simp add: nordicHasBL_short exLoaded_raw)
  have nv: "\<not> nordicValid (raw ?g) 0x6400" "\<not> nordicValid (raw ?g) 0x6800"
    by (simp_all add: nordicValid_def exLoaded_raw)
  have nf: "nordicFields ?g False = exLoaded\<lparr>HasBL := False, StartOffset := 0x400\<rparr>"
    by (simp add: nordicFields_short exLoaded_raw)
  show ?thesis
    unfolding ParseFirmwareNordic_eval [OF bl] nf using nv by simp
qed

text \<open>
  The theorem of claim C5 at the entity loaded from a hex file of two records, with the
  layout fields that the loader has written: the failed TI attempt sets \<open>HasBL\<close> and
  moves \<open>StartOffset\<close> from \<open>0x100\<close> to \<open>0x400\<close>, the failed Nordic attempt clears
  \<open>HasBL\<close> again, and the classification returns no entity.
\<close>

theorem C5_failed_attempts_witness:
  "bind (hexLoop zeroFirmware ['':0101000000FE'', '':0804F8006D040000000000008B'']) trim = Inr exLoaded \<and>
   (HasBL exLoaded, StartOffset exLoaded, Size exLoaded, LastOffset exLoaded, CRC exLoaded, TailPos exLoaded)
     = (False, 0x100, 0x400, 0x4FF, 0, 0) \<and>
   raw exLoaded ! 0x3f8 = 0x6d \<and> raw exLoaded ! 0x3f9 = 0x04 \<and>
   ParseFirmwareTI exLoaded
     = Inr (exLoaded\<lparr>HasBL := True, StartOffset := 0x400\<rparr>, Some ErrTIMagicMissing) \<and>
   ParseFirmwareNordic (exLoaded\<lparr>HasBL := True, StartOffset := 0x400\<rparr>)
     = Inr (exLoaded\<lparr>HasBL := False, StartOffset := 0x400\<rparr>, Some ErrNoValidImage) \<and>
   classify exLoaded = Inr (None, Some ErrUnsupportedFormat)"
proof -
  have l: "bind (hexLoop zeroFirmware ['':0101000000FE'', '':0804F8006D040000000000008B'']) trim = Inr exLoaded"
    by (simp only: hexLoop_exPushed bind_Inr trim_exPushed)
  have v: "(HasBL exLoaded, StartOffset exLoaded, Size exLoaded, LastOffset exLoaded, CRC exLoaded, TailPos exLoaded)
     = (False, 0x100, 0x400, 0x4FF, 0, 0)"
    by (simp add: exLoaded_def zeroFirmware_def)
  have u: "TargetType exLoaded = FIRMWARE_TARGET_TYPE_UNKNOWN"
    by (simp add: exLoaded_def zeroFirmware_def)
  from C5_failed_attempts [OF TI_exLoaded Nordic_exLoaded] u
  have c: "raw exLoaded ! 0x3f8 = 0x6d \<and> raw exLoaded ! 0x3f9 = 0x04"
    "classify exLoaded = Inr (None, Some ErrUnsupportedFormat)"
    by (simp_all add: tiBL_def)
  from l v c TI_exLoaded Nordic_exLoaded show ?thesis by blast
qed

text \<open>
  Claim C3, at inputs on which the code panics: a nil buffer and a buffer of \<open>0x3FF\<close>
  bytes given to the classification (\<open>f.RawData[:0x0400]\<close>); a buffer of \<open>0x400\<close> bytes
  that starts with the marker, where \<open>TailPos\<close> wraps around to \<open>0xFFFE\<close>; a buffer of
  \<open>0x7401\<close> bytes given to the Nordic detector, which reads index \<open>0x7FB0\<close>; a record that
  declares five data bytes and holds none; a record of declared length \<open>0xFF\<close>, where
  \<open>4+length\<close> wraps around to 3; a hex file with such a line, and a hex file with an empty
  line.
\<close>

theorem C3_panics:
  "ParseFirmwareBin None = Inl SliceBoundsOutOfRange \<and>
   ParseFirmwareBin (Some (replicate 0x3FF 0)) = Inl SliceBoundsOutOfRange \<and>
   ParseFirmwareTI (zeroFirmware\<lparr>RawData := Some (0xFE # 0xC0 # 0xAD # 0xDE # replicate 0x3FC 0)\<rparr>)
     = Inl IndexOutOfRange \<and>
   ParseFirmwareNordic (zeroFirmware\<lparr>RawData := Some (replicate 0x7401 0)\<rparr>) = Inl IndexOutOfRange \<and>
   pushRawHexLine zeroFirmware [5, 0, 0, 0] = Inl SliceBoundsOutOfRange \<and>
   pushRawHexLine zeroFirmware [0xFF, 0, 0, 0] = Inl SliceBoundsOutOfRange \<and>
   ParseFirmwareHex ['':05000000''] = Inl SliceBoundsOutOfRange \<and>
   ParseFirmwareHex [''''] = Inl SliceBoundsOutOfRange"
proof -
  have 1: "ParseFirmwareBin None = Inl SliceBoundsOutOfRange"
    "ParseFirmwareBin (Some (replicate 0x3FF 0)) = Inl SliceBoundsOutOfRange"
    by (simp_all add: ParseFirmwareBin_def classify_def ParseFirmwareTI_def slice_def raw_def)
  have 2: "ParseFirmwareTI (zeroFirmware\<lparr>RawData := Some (0xFE # 0xC0 # 0xAD # 0xDE # replicate 0x3FC 0)\<rparr>)
     = Inl IndexOutOfRange"
    by (subst ParseFirmwareTI_head)
       (simp_all add: tiBL_def tiStart_def Let_def marker_def index_def)
  have 3: "ParseFirmwareNordic (zeroFirmware\<lparr>RawData := Some (replicate 0x7401 0)\<rparr>) = Inl IndexOutOfRange"
    by (rule ParseFirmwareNordic_panic) (simp add: nordicHasBL_panic)
  have 4: "pushRawHexLine zeroFirmware [5, 0, 0, 0] = Inl SliceBoundsOutOfRange"
    "pushRawHexLine zeroFirmware [0xFF, 0, 0, 0] = Inl SliceBoundsOutOfRange"
    by (simp_all add: pushRawHexLine_def slice_def)
  have 5: "ParseFirmwareHex ['':05000000''] = Inl SliceBoundsOutOfRange"
    "ParseFirmwareHex [''''] = Inl SliceBoundsOutOfRange"
    by (simp_all add: ParseFirmwareHex_def hexval_simps pushRawHexLine_def slice_def)
  from 1 2 3 4 5 show ?thesis by blast
qed

section \<open>The downgrade patcher: size, marker and checksum\<close>

lemma length_Replace:
  "length new = length old \<Longrightarrow> length (Replace s old new) = length s"
proof (induction s old new rule: Replace.induct)
  case (1 old new)
  then show ?case by simp
next
  case (2 x xs old new)
  show ?case
  proof (cases "old \<noteq> [] \<and> take (length old) (x # xs) = old")
    case True
    then have "length old \<le> length (x # xs)"
      by (metis length_take min.cobounded1)
    with True 2 show ?thesis by simp
  next
    case False
    with 2 show ?thesis by auto
  qed
qed

lemma length_applyPatches:
  "\<forall>(old, new) \<in> set ps. length new = length old \<Longrightarrow> length (applyPatches ps b) = length b"
  unfolding applyPatches_def
  by (induction ps arbitrary: b) (auto simp: length_Replace)

lemma patches_lengths: "\<forall>(old, new) \<in> set patches. length new = length old"
  by (simp add: patches_def)

lemma fillFF_eq:
  "lo + n \<le> length s \<Longrightarrow> fillFF s lo n = Inr (take lo s @ replicate n 0xFF @ drop (lo + n) s)"
proof (induction n arbitrary: s lo)
  case 0
  then show ?case by simp
next
  case (Suc n)
  then have lo: "lo < length s" by simp
  have "fillFF (s[lo := 0xFF]) (Suc lo) n
      = Inr (take (Suc lo) (s[lo := 0xFF]) @ replicate n 0xFF @ drop (Suc lo + n) (s[lo := 0xFF]))"
    using Suc.prems by (intro Suc.IH) simp
  also have "take (Suc lo) (s[lo := 0xFF]) = take lo s @ [0xFF]"
    using lo by (simp add: take_Suc_conv_app_nth)
  also have "drop (Suc lo + n) (s[lo := 0xFF]) = drop (lo + Suc n) s"
    by simp
  finally show ?case using lo by (simp add: store_def replicate_app_Cons_same)
qed

lemma le16_bytes:
  "push_bit 8 (ucast (ucast (drop_bit 8 c) :: byte)) OR ucast (ucast (c AND 0x00ff) :: byte) = (c :: uint16)"
proof -
  have m: "(0x00ff :: uint16) = mask 8" by (simp add: mask_eq_exp_minus_1)
  show ?thesis
    unfolding m by (rule bit_word_eqI) (auto simp: bit_simps)
qed


lemma fillFF_length:
  assumes "lo + n \<le> length s"
  obtains s' where "fillFF s lo n = Inr s'" "length s' = length s"
proof
  show "fillFF s lo n = Inr (take lo s @ replicate n 0xFF @ drop (lo + n) s)"
    using assms by (rule fillFF_eq)
  show "length (take lo s @ replicate n 0xFF @ drop (lo + n) s) = length s"
    using assms by simp
qed

lemma downgrade_tail:
  assumes len: "length p4 = 0x6800"
  defines "p5 \<equiv> copy_into p4 (length p4 - 4) (length p4) marker"
  defines "c \<equiv> Checksum (take (length p5 - 6) p5)"
  defines "out \<equiv> (p5[length p5 - 6 := ucast (c AND 0x00ff)])[length p5 - 5 := ucast (drop_bit 8 c)]"
  shows "length out = 0x6800" "drop (length out - 4) out = marker"
    "Checksum (take (length out - 6) out)
       = push_bit 8 (ucast (out ! (length out - 5))) OR ucast (out ! (length out - 6))"
proof -
  have p5: "p5 = take 0x67fc p4 @ marker"
    unfolding p5_def using len by (simp add: copy_into_def marker_def)
  have l5: "length p5 = 0x6800"
    unfolding p5 using len by (simp add: marker_def)
  show lo: "length out = 0x6800"
    unfolding out_def by (simp add: l5)
  have "drop 0x67fc out = drop 0x67fc p5"
    unfolding out_def l5 by (simp add: drop_update_cancel)
  also have "\<dots> = marker"
    unfolding p5 using len by simp
  finally show "drop (length out - 4) out = marker" by (simp add: lo)
  have t: "take 0x67fa out = take 0x67fa p5"
    unfolding out_def l5 by simp
  have n: "out ! 0x67fa = ucast (c AND 0x00ff)" "out ! 0x67fb = ucast (drop_bit 8 c)"
    unfolding out_def l5 by (simp_all add: l5)
  have "Checksum (take 0x67fa out) = c"
    unfolding t c_def l5 by simp
  also have "c = push_bit 8 (ucast (out ! 0x67fb)) OR ucast (out ! 0x67fa)"
    unfolding n by (rule le16_bytes [symmetric])
  finally show "Checksum (take (length out - 6) out)
       = push_bit 8 (ucast (out ! (length out - 5))) OR ucast (out ! (length out - 6))"
    by (simp add: lo)
qed

lemma slice_take: "n \<le> length s \<Longrightarrow> slice s 0 n = Inr (take n s)"
  by (simp add: slice_def)

lemma downgrade_eval:
  assumes ti: "TargetType f = FIRMWARE_TARGET_TYPE_TI" and sz: "Size f = 0x6000"
    and img: "holdsImage f"
  obtains p4 where "length p4 = 0x6800"
    "BaseImageDowngradeFromBL0302ToBL0301 f =
       (let p5 = copy_into p4 (length p4 - 4) (length p4) marker;
            c = Checksum (take (length p5 - 6) p5)
        in Inr (f, Some ((p5[length p5 - 6 := ucast (c AND 0x00ff)])
                           [length p5 - 5 := ucast (drop_bit 8 c)]), None))"
proof -
  let ?so = "unat (StartOffset f)"
  from img sz have so: "?so + 0x6000 \<le> length (raw f)" "?so + 0x6000 < 2 ^ 16"
    by (simp_all add: holdsImage_def)
  have u: "unat (StartOffset f + Size f) = ?so + 0x6000"
    using so(2) unat_add_lem [of "StartOffset f" "Size f"] by (simp add: sz)
  define base where "base = take 0x6000 (drop ?so (raw f))"
  have lb: "length base = 0x6000"
    unfolding base_def using so(1) by simp
  have sl: "slice (raw f) ?so (unat (StartOffset f + Size f)) = Inr base"
    unfolding u base_def using so(1) by (simp add: slice_def)
  define p1 where "p1 = copy_into (replicate 0x6800 (0 :: byte)) 0 0x6800 base"
  have l1: "length p1 = 0x6800"
    unfolding p1_def by (simp add: copy_into_def lb)
  obtain p2 where p2: "fillFF p1 0x5ffa 6 = Inr p2" "length p2 = 0x6800"
    by (rule fillFF_length [of "0x5ffa" 6 p1]) (simp_all add: l1)
  obtain p3 where p3: "fillFF p2 0x6000 0x800 = Inr p3" "length p3 = 0x6800"
    by (rule fillFF_length [of "0x6000" "0x800" p2]) (simp_all add: p2(2))
  define p4 where "p4 = applyPatches patches p3"
  have l4: "length p4 = 0x6800"
    unfolding p4_def by (simp add: length_applyPatches [OF patches_lengths] p3(2))
  have l5: "length (copy_into p4 0x67fc 0x6800 marker) = 0x6800"
    using l4 by (simp add: copy_into_def marker_def)
  have "BaseImageDowngradeFromBL0302ToBL0301 f =
       (let p5 = copy_into p4 (length p4 - 4) (length p4) marker;
            c = Checksum (take (length p5 - 6) p5)
        in Inr (f, Some ((p5[length p5 - 6 := ucast (c AND 0x00ff)])
                           [length p5 - 5 := ucast (drop_bit 8 c)]), None))"
    unfolding BaseImageDowngradeFromBL0302ToBL0301_def
    by (simp add: ti sz sl [unfolded sz] Let_def p1_def [symmetric] p2 p3
        p4_def [symmetric] l4 l5 slice_take store_def)
  with l4 show ?thesis by (rule that)
qed

text \<open>
  Claim C1. For an entity of target type TI and size \<open>0x6000\<close> whose buffer holds the
  image window, the downgrade patcher returns a buffer of \<open>0x6800\<close> bytes; its last four
  bytes are \<open>FE C0 AD DE\<close>, and the checksum of all but its last six bytes is the 16-bit
  value stored, low byte first, in the two bytes before the marker.
\<close>

theorem C1_downgrade:
  assumes "TargetType f = FIRMWARE_TARGET_TYPE_TI" "Size f = 0x6000" "holdsImage f"
  shows "\<exists>out. BaseImageDowngradeFromBL0302ToBL0301 f = Inr (f, Some out, None) \<and>
           length out = 0x6800 \<and>
           drop (length out - 4) out = [0xfe, 0xc0, 0xad, 0xde] \<and>
           Checksum (take (length out - 6) out)
             = push_bit 8 (ucast (out ! (length out - 5))) OR ucast (out ! (length out - 6))"
proof -
  from assms obtain p4 where p4: "length p4 = 0x6800"
    "BaseImageDowngradeFromBL0302ToBL0301 f =
       (let p5 = copy_into p4 (length p4 - 4) (length p4) marker;
            c = Checksum (take (length p5 - 6) p5)
        in Inr (f, Some ((p5[length p5 - 6 := ucast (c AND 0x00ff)])
                           [length p5 - 5 := ucast (drop_bit 8 c)]), None))"
    by (rule downgrade_eval)
  from downgrade_tail [OF p4(1)] p4(2) show ?thesis
    by (simp add: Let_def marker_def)
qed

text \<open>
  Claim C2. For an entity whose target type is not TI, or whose size is not \<open>0x6000\<close>,
  the downgrade patcher returns an error and the nil buffer, without a panic, and the
  entity is unchanged; an entity of size \<open>0x6800\<close>, as an image already patched has it,
  is rejected.
\<close>

theorem C2_rejects:
  "(TargetType f \<noteq> FIRMWARE_TARGET_TYPE_TI \<longrightarrow>
      BaseImageDowngradeFromBL0302ToBL0301 f = Inr (f, None, Some ErrDowngradeNotTI)) \<and>
   (TargetType f = FIRMWARE_TARGET_TYPE_TI \<and> Size f \<noteq> 0x6000 \<longrightarrow>
      BaseImageDowngradeFromBL0302ToBL0301 f = Inr (f, None, Some ErrDowngradeWrongSize)) \<and>
   (Size f = 0x6800 \<longrightarrow>
      (\<exists>e. BaseImageDowngradeFromBL0302ToBL0301 f = Inr (f, None, Some e)))"
  by (simp add: BaseImageDowngradeFromBL0302ToBL0301_def)

lemma Index_Some:
  "Index s sub = Some p \<Longrightarrow> p + length sub \<le> length s \<and> take (length sub) (drop p s) = sub"
proof (induction s arbitrary: p)
  case Nil
  then show ?case by (simp split: if_splits)
next
  case (Cons x xs)
  show ?case
  proof (cases "take (length sub) (x # xs) = sub")
    case True
    with Cons.prems have "p = 0" by simp
    moreover have "length (take (length sub) (x # xs)) \<le> length (x # xs)"
      by simp
    then have "length sub \<le> length (x # xs)" unfolding True .
    ultimately show ?thesis using True by simp
  next
    case False
    with Cons.prems obtain q where q: "Index xs sub = Some q" "p = Suc q"
      by auto
    from Cons.IH [OF q(1)] q(2) show ?thesis by simp
  qed
qed

text \<open>
  Every entity that the classification returns as TI with size \<open>0x6000\<close> holds its
  image window.
\<close>

lemma tiStart_cases: "tiStart r = 0 \<or> tiStart r = 0x400"
  by (simp add: tiStart_def)

lemma ParseFirmwareTI_success:
  assumes "ParseFirmwareTI f = Inr (f', None)"
  obtains pos where "Index (drop (unat (tiStart (raw f))) (raw f)) marker = Some pos"
    "StartOffset f' = tiStart (raw f)" "Size f' = of_nat pos + 4" "raw f' = raw f"
    "0x400 \<le> length (raw f)"
proof -
  have len: "0x400 \<le> length (raw f)"
    using assms ParseFirmwareTI_short [of f] by (cases "length (raw f) < 0x400") simp_all
  note h = assms [unfolded ParseFirmwareTI_head [OF len]]
  from h obtain pos where pos: "Index (drop (unat (tiStart (raw f))) (raw f)) marker = Some pos"
    by (cases "Index (drop (unat (tiStart (raw f))) (raw f)) marker") (auto simp: Let_def)
  from h pos have r: "StartOffset f' = tiStart (raw f)" "Size f' = of_nat pos + 4" "raw f' = raw f"
    by (auto simp: Let_def bind_Inr_iff split: if_splits)
  show ?thesis by (rule that [OF pos r len])
qed

lemma ParseFirmwareTI_holdsImage:
  assumes "ParseFirmwareTI f = Inr (f', None)" "Size f' = 0x6000"
  shows "holdsImage f'"
proof -
  from assms(1) obtain pos where p: "Index (drop (unat (tiStart (raw f))) (raw f)) marker = Some pos"
    "StartOffset f' = tiStart (raw f)" "Size f' = of_nat pos + 4" "raw f' = raw f"
    "0x400 \<le> length (raw f)"
    by (rule ParseFirmwareTI_success)
  from Index_Some [OF p(1)] p(5)
  have b: "unat (tiStart (raw f)) + pos + 4 \<le> length (raw f)"
    using tiStart_cases [of "raw f"] by (auto simp: marker_def)
  have "unat (of_nat pos + 4 :: uint16) \<le> pos + 4"
    by (simp add: unat_word_ariths unat_of_nat)
  with p(3) assms(2) have "0x6000 \<le> pos + 4" by simp
  with b have "unat (tiStart (raw f)) + 0x6000 \<le> length (raw f)" by simp
  moreover have "unat (tiStart (raw f)) + 0x6000 < 2 ^ 16"
    using tiStart_cases [of "raw f"] by auto
  ultimately show ?thesis
    by (simp add: holdsImage_def p(2,4) assms(2))
qed

lemma classify_TI_holdsImage:
  assumes "classify f = Inr (Some g, e)" "TargetType g = FIRMWARE_TARGET_TYPE_TI" "Size g = 0x6000"
  shows "holdsImage g"
proof -
  let ?f0 = "f\<lparr>TargetType := FIRMWARE_TARGET_TYPE_UNKNOWN\<rparr>"
  from assms(1) obtain f1 err where t: "ParseFirmwareTI ?f0 = Inr (f1, err)"
    by (cases "ParseFirmwareTI ?f0") (auto simp: classify_def)
  show ?thesis
  proof (cases err)
    case None
    with assms(1) t have g: "g = f1\<lparr>TargetType := FIRMWARE_TARGET_TYPE_TI\<rparr>"
      by (simp add: classify_def)
    with assms(3) have "Size f1 = 0x6000" by simp
    with t None have "holdsImage f1" by (intro ParseFirmwareTI_holdsImage [of ?f0]) simp_all
    then show ?thesis by (simp add: holdsImage_def g)
  next
    case (Some a)
    with assms(1) t obtain f2 where "g = f2\<lparr>TargetType := FIRMWARE_TARGET_TYPE_NORDIC\<rparr>"
      by (auto simp: classify_def bind_Inr_iff split: if_splits)
    with assms(2) show ?thesis by simp
  qed
qed

section \<open>The downgrade patcher: the order of the substitutions\<close>

lemma take_eq_length:
  assumes "take n s = old" "n = length old"
  shows "length old \<le> length s"
proof -
  have "length (take n s) \<le> length s" by simp
  then show ?thesis unfolding assms(1) .
qed

lemma occ_iff:
  "occ old s p \<longleftrightarrow> p + length old \<le> length s \<and> (\<forall>j < length old. s ! (p + j) = old ! j)"
  if "old \<noteq> []"
proof
  assume o: "occ old s p"
  then have t: "take (length old) (drop p s) = old" by (simp add: occ_def)
  then have "length old \<le> length (drop p s)" by (rule take_eq_length) simp
  with that have le: "p + length old \<le> length s" by (cases old) auto
  have "s ! (p + j) = old ! j" if "j < length old" for j
  proof -
    have "old ! j = take (length old) (drop p s) ! j" by (simp add: t)
    also have "\<dots> = s ! (p + j)" using that le by simp
    finally show ?thesis by simp
  qed
  with le show "p + length old \<le> length s \<and> (\<forall>j < length old. s ! (p + j) = old ! j)" by blast
next
  assume a: "p + length old \<le> length s \<and> (\<forall>j < length old. s ! (p + j) = old ! j)"
  show "occ old s p"
    unfolding occ_def using a by (intro nth_equalityI) auto
qed

lemma occ_drop: "occ old (drop n s) p = occ old s (n + p)"
  by (simp add: occ_def add.commute)

lemma occ_Cons: "occ old (x # xs) (Suc p) = occ old xs p"
  by (simp add: occ_def)

lemma occ_0: "occ old s 0 \<longleftrightarrow> take (length old) s = old"
  by (simp add: occ_def)

lemma length_selmask: "length (selmask s old k) = length s"
proof (induction s old k rule: selmask.induct)
  case (1 old k)
  then show ?case by simp
next
  case (2 x xs old k)
  show ?case
  proof (cases "old \<noteq> [] \<and> take (length old) (x # xs) = old")
    case True
    then have "length old \<le> length (x # xs)" by (intro take_eq_length [of "length old"]) simp_all
    with True 2 show ?thesis by simp
  next
    case False
    with 2 show ?thesis by auto
  qed
qed

lemma nth_mark: "k < n \<Longrightarrow> i < n \<Longrightarrow> (replicate n False)[k := True] ! i = (i = k)"
  by (cases "i = k") simp_all

lemma nth_Replace:
  assumes "k < length old" "i < length s"
  shows "Replace s old (old[k := d]) ! i = (if selmask s old k ! i then d else s ! i)"
  using assms
proof (induction s old k arbitrary: i rule: selmask.induct)
  case (1 old k)
  then show ?case by simp
next
  case (2 x xs old k)
  let ?s = "x # xs" and ?n = "length old"
  show ?case
  proof (cases "old \<noteq> [] \<and> take ?n ?s = old")
    case True
    then have le: "?n \<le> length ?s" by (intro take_eq_length [of ?n]) simp_all
    have R: "Replace ?s old (old[k := d]) = old[k := d] @ Replace (drop ?n ?s) old (old[k := d])"
      using True by simp
    have M: "selmask ?s old k = (replicate ?n False)[k := True] @ selmask (drop ?n ?s) old k"
      using True by simp
    show ?thesis
    proof (cases "i < ?n")
      case i: True
      have "?s ! i = take ?n ?s ! i" using i by simp
      also have "\<dots> = old ! i" using True by simp
      finally have si: "?s ! i = old ! i" .
      show ?thesis
      proof (cases "i = k")
        case True
        then show ?thesis unfolding R M using i "2.prems"(1) by (simp add: nth_append nth_mark)
      next
        case False
        then show ?thesis unfolding R M using i si "2.prems"(1) by (simp add: nth_append nth_mark)
      qed
    next
      case i: False
      then have j: "i - ?n < length (drop ?n ?s)" using "2.prems" by simp
      have "Replace (drop ?n ?s) old (old[k := d]) ! (i - ?n)
          = (if selmask (drop ?n ?s) old k ! (i - ?n) then d else drop ?n ?s ! (i - ?n))"
        using True j "2.prems"(1) by (intro "2.IH"(1)) simp_all
      moreover have "drop ?n ?s ! (i - ?n) = ?s ! i"
        using i le by simp
      ultimately show ?thesis
        unfolding R M using i by (simp add: nth_append)
    qed
  next
    case False
    then have R: "Replace ?s old (old[k := d]) = x # Replace xs old (old[k := d])"
      and M: "selmask ?s old k = False # selmask xs old k"
      by auto
    show ?thesis
    proof (cases i)
      case 0
      then show ?thesis unfolding R M by simp
    next
      case (Suc j)
      then have "j < length xs" using "2.prems" by simp
      then have "Replace xs old (old[k := d]) ! j = (if selmask xs old k ! j then d else xs ! j)"
        using False "2.prems"(1) by (intro "2.IH"(2)) simp_all
      then show ?thesis unfolding R M Suc by simp
    qed
  qed
qed

lemma selmask_occ:
  assumes "k < length old" "i < length s" "selmask s old k ! i"
  shows "k \<le> i \<and> occ old s (i - k)"
  using assms
proof (induction s old k arbitrary: i rule: selmask.induct)
  case (1 old k)
  then show ?case by simp
next
  case (2 x xs old k)
  let ?s = "x # xs" and ?n = "length old"
  show ?case
  proof (cases "old \<noteq> [] \<and> take ?n ?s = old")
    case True
    then have le: "?n \<le> length ?s" by (intro take_eq_length [of ?n]) simp_all
    have M: "selmask ?s old k = (replicate ?n False)[k := True] @ selmask (drop ?n ?s) old k"
      using True by simp
    show ?thesis
    proof (cases "i < ?n")
      case i: True
      have "(replicate ?n False)[k := True] ! i = (i = k)"
        using "2.prems"(1) i by (rule nth_mark)
      with "2.prems"(3) i have "i = k"
        unfolding M by (simp add: nth_append)
      with True show ?thesis by (simp add: occ_0)
    next
      case i: False
      then have j: "i - ?n < length (drop ?n ?s)" using "2.prems" by simp
      from "2.prems"(3) i have "selmask (drop ?n ?s) old k ! (i - ?n)"
        unfolding M by (simp add: nth_append)
      with True j "2.prems"(1) have "k \<le> i - ?n \<and> occ old (drop ?n ?s) (i - ?n - k)"
        by (intro "2.IH"(1)) simp_all
      then have ki: "k \<le> i - ?n" and "occ old ?s (?n + (i - ?n - k))"
        by (simp_all add: occ_drop)
      moreover have "?n + (i - ?n - k) = i - k"
        using i ki by linarith
      moreover have "k \<le> i" using ki by linarith
      ultimately show ?thesis by simp
    qed
  next
    case False
    then have M: "selmask ?s old k = False # selmask xs old k" by auto
    show ?thesis
    proof (cases i)
      case 0
      with "2.prems"(3) show ?thesis unfolding M by simp
    next
      case (Suc j)
      with "2.prems" have "j < length xs" "selmask xs old k ! j"
        unfolding M by simp_all
      with False "2.prems"(1) have "k \<le> j \<and> occ old xs (j - k)"
        by (intro "2.IH"(2)) simp_all
      then have kj: "k \<le> j" and "occ old ?s (Suc (j - k))"
        by (simp_all add: occ_Cons)
      moreover have "Suc (j - k) = i - k"
        using Suc kj by linarith
      moreover have "k \<le> i" using Suc kj by linarith
      ultimately show ?thesis by simp
    qed
  qed
qed

lemma selmask_cong:
  assumes "length s = length t" "\<And>p. occ old s p = occ old t p"
  shows "selmask s old k = selmask t old k"
  using assms
proof (induction s old k arbitrary: t rule: selmask.induct)
  case (1 old k)
  then show ?case by simp
next
  case (2 x xs old k)
  from "2.prems"(1) obtain y ys where t: "t = y # ys" "length xs = length ys"
    by (cases t) auto
  let ?s = "x # xs" and ?n = "length old"
  have m: "take ?n ?s = old \<longleftrightarrow> take ?n t = old"
    using "2.prems"(2) [of 0] by (simp add: occ_0)
  show ?case
  proof (cases "old \<noteq> [] \<and> take ?n ?s = old")
    case True
    have "selmask (drop ?n ?s) old k = selmask (drop ?n t) old k"
    proof (rule "2.IH"(1) [OF True])
      show "length (drop ?n ?s) = length (drop ?n t)"
        using "2.prems"(1) by simp
      show "occ old (drop ?n ?s) p = occ old (drop ?n t) p" for p
        using "2.prems"(2) [of "?n + p"] by (simp only: occ_drop)
    qed
    with True m show ?thesis unfolding t by simp
  next
    case False
    have "selmask xs old k = selmask ys old k"
    proof (rule "2.IH"(2) [OF False])
      show "length xs = length ys" by (rule t(2))
      show "occ old xs p = occ old ys p" for p
        using "2.prems"(2) [of "Suc p"] unfolding t by (simp only: occ_Cons)
    qed
    with False m show ?thesis unfolding t by auto
  qed
qed

lemma occ_selmask:
  assumes "k < length old" "noOverlap old" "occ old s p"
  shows "selmask s old k ! (p + k)"
  using assms
proof (induction s old k arbitrary: p rule: selmask.induct)
  case (1 old k)
  then show ?case by (auto simp: occ_def)
next
  case (2 x xs old k)
  let ?s = "x # xs" and ?n = "length old"
  note k = "2.prems"(1) and no = "2.prems"(2) and oc = "2.prems"(3)
  have ne: "old \<noteq> []" using k by auto
  show ?case
  proof (cases "take ?n ?s = old")
    case True
    then have le: "?n \<le> length ?s" by (intro take_eq_length [of ?n]) simp_all
    have o0: "occ old ?s 0" using True by (simp add: occ_0)
    have M: "selmask ?s old k = (replicate ?n False)[k := True] @ selmask (drop ?n ?s) old k"
      using True ne by simp
    consider "p = 0" | "0 < p" "p < ?n" | "?n \<le> p" by linarith
    then show ?thesis
    proof cases
      case 1
      then show ?thesis unfolding M using k by (simp add: nth_append nth_mark)
    next
      case 2
      then have "p \<in> {1..<?n}" by simp
      moreover from no have "\<forall>q \<in> {1..<?n}. \<exists>j \<in> {0..<?n - q}. old ! (q + j) \<noteq> old ! j"
        by (simp only: noOverlap_def)
      ultimately obtain j where "j \<in> {0..<?n - p}" and j2: "old ! (p + j) \<noteq> old ! j"
        by blast
      then have j: "j < ?n - p" "old ! (p + j) \<noteq> old ! j" by simp_all
      from j(1) have "p + j < ?n" by linarith
      with o0 have "?s ! (0 + (p + j)) = old ! (p + j)"
        unfolding occ_iff [OF ne] by blast
      then have "?s ! (p + j) = old ! (p + j)" by simp
      moreover from j(1) have "j < ?n" by linarith
      with oc have "?s ! (p + j) = old ! j"
        unfolding occ_iff [OF ne] by blast
      ultimately show ?thesis using j(2) by simp
    next
      case 3
      then have "occ old (drop ?n ?s) (p - ?n)"
        using oc by (simp add: occ_drop)
      with True ne k no have "selmask (drop ?n ?s) old k ! (p - ?n + k)"
        by (intro "2.IH"(1)) simp_all
      moreover have e: "p - ?n + k = p + k - ?n" using 3 by simp
      have "((replicate ?n False)[k := True] @ selmask (drop ?n ?s) old k) ! (p + k)
          = selmask (drop ?n ?s) old k ! (p + k - ?n)"
        using 3 by (simp add: nth_append)
      ultimately show ?thesis unfolding M e by simp
    qed
  next
    case False
    then have M: "selmask ?s old k = False # selmask xs old k" by auto
    from False oc obtain q where q: "p = Suc q"
      by (cases p) (auto simp: occ_0)
    with oc have "occ old xs q" by (simp add: occ_Cons)
    with False k no have "selmask xs old k ! (q + k)"
      by (intro "2.IH"(2)) simp_all
    then show ?thesis unfolding M q by simp
  qed
qed

lemma wfPatch_ne: "wfPatch a \<Longrightarrow> fst a \<noteq> []"
  by (auto simp: wfPatch_def)

lemma length_Replace_patch: "wfPatch a \<Longrightarrow> length (Replace s (fst a) (snd a)) = length s"
  by (rule length_Replace) (metis wfPatch_def length_list_update)

lemma nth_Replace_patch:
  assumes "wfPatch a" "i < length s"
  shows "Replace s (fst a) (snd a) ! i
     = (if selmask s (fst a) (patch_k a) ! i then patch_d a else s ! i)"
proof -
  from assms(1) have k: "patch_k a < length (fst a)"
    and n: "snd a = (fst a)[patch_k a := patch_d a]"
    by (simp_all add: wfPatch_def)
  show ?thesis
    by (subst n) (rule nth_Replace [OF k assms(2)])
qed

text \<open>A marked position carries the byte that the patch changes, inside an occurrence.\<close>

lemma selmask_patch:
  assumes "wfPatch b" "i < length s" "selmask s (fst b) (patch_k b) ! i"
  shows "patch_k b \<le> i" "occ (fst b) s (i - patch_k b)" "s ! i = fst b ! patch_k b"
proof -
  from assms(1) have k: "patch_k b < length (fst b)" by (simp add: wfPatch_def)
  from selmask_occ [OF k assms(2,3)]
  show 1: "patch_k b \<le> i" and 2: "occ (fst b) s (i - patch_k b)" by simp_all
  from 2 k have "s ! (i - patch_k b + patch_k b) = fst b ! patch_k b"
    unfolding occ_iff [OF wfPatch_ne [OF assms(1)]] by blast
  with 1 show "s ! i = fst b ! patch_k b" by simp
qed

lemma clash:
  assumes wa: "wfPatch a" and wb: "wfPatch b" and ind: "indep a b"
    and oa: "occ (fst a) s p" and j: "j < length (fst a)"
    and m: "selmask s (fst b) (patch_k b) ! (p + j)"
  shows False
proof -
  from oa have le: "p + length (fst a) \<le> length s"
    and nth: "\<And>j. j < length (fst a) \<Longrightarrow> s ! (p + j) = fst a ! j"
    unfolding occ_iff [OF wfPatch_ne [OF wa]] by blast+
  from le j have i: "p + j < length s" by linarith
  note B = selmask_patch [OF wb i m]
  have "fst a ! j = fst b ! patch_k b"
    using nth [OF j] B(3) by simp
  moreover have "j \<in> {0..<length (fst a)}" using j by simp
  ultimately have c: "j = patch_k a" "0 < patch_k a" "0 < patch_k b"
    "fst a ! (patch_k a - 1) \<noteq> fst b ! (patch_k b - 1)"
    using ind unfolding indep_def by blast+
  from c(1,2) j have "s ! (p + (j - 1)) = fst a ! (j - 1)"
    by (intro nth) simp
  moreover from wb have kb: "patch_k b < length (fst b)" by (simp add: wfPatch_def)
  from B(2) have "\<And>q. q < length (fst b) \<Longrightarrow> s ! (p + j - patch_k b + q) = fst b ! q"
    unfolding occ_iff [OF wfPatch_ne [OF wb]] by blast
  from this [of "patch_k b - 1"] kb c(3) have "s ! (p + j - patch_k b + (patch_k b - 1)) = fst b ! (patch_k b - 1)"
    by simp
  moreover have "p + j - patch_k b + (patch_k b - 1) = p + (j - 1)"
    using B(1) c(1,2,3) by linarith
  ultimately show False using c(1,4) by simp
qed

lemma occ_Replace:
  assumes wa: "wfPatch a" and wb: "wfPatch b" and ind: "indep a b"
  shows "occ (fst a) (Replace s (fst b) (snd b)) p = occ (fst a) s p"
proof -
  let ?t = "Replace s (fst b) (snd b)"
  have lt: "length ?t = length s" by (rule length_Replace_patch [OF wb])
  have nt: "?t ! i = (if selmask s (fst b) (patch_k b) ! i then patch_d b else s ! i)"
    if "i < length s" for i
    by (rule nth_Replace_patch [OF wb that])
  note ia = occ_iff [OF wfPatch_ne [OF wa]]
  show ?thesis
  proof
    assume o: "occ (fst a) ?t p"
    then have le: "p + length (fst a) \<le> length s"
      and nth: "\<And>j. j < length (fst a) \<Longrightarrow> ?t ! (p + j) = fst a ! j"
      unfolding ia lt by blast+
    have "s ! (p + j) = fst a ! j" if j: "j < length (fst a)" for j
    proof (cases "selmask s (fst b) (patch_k b) ! (p + j)")
      case True
      with nt [of "p + j"] le j have "?t ! (p + j) = patch_d b" by simp
      with nth [OF j] have "patch_d b \<in> set (fst a)"
        using j by (metis nth_mem)
      with ind show ?thesis by (simp add: indep_def)
    next
      case False
      with nt [of "p + j"] le j have "?t ! (p + j) = s ! (p + j)" by simp
      with nth [OF j] show ?thesis by simp
    qed
    with le show "occ (fst a) s p" unfolding ia by blast
  next
    assume o: "occ (fst a) s p"
    then have le: "p + length (fst a) \<le> length s"
      and nth: "\<And>j. j < length (fst a) \<Longrightarrow> s ! (p + j) = fst a ! j"
      unfolding ia by blast+
    have "?t ! (p + j) = fst a ! j" if j: "j < length (fst a)" for j
    proof -
      have "\<not> selmask s (fst b) (patch_k b) ! (p + j)"
        using clash [OF wa wb ind o j] by blast
      with nt [of "p + j"] le j have "?t ! (p + j) = s ! (p + j)" by simp
      with nth [OF j] show ?thesis by simp
    qed
    with le show "occ (fst a) ?t p" unfolding ia lt by blast
  qed
qed

lemma selmask_Replace:
  assumes "wfPatch a" "wfPatch b" "indep a b"
  shows "selmask (Replace s (fst b) (snd b)) (fst a) k = selmask s (fst a) k"
  by (rule selmask_cong) (simp_all add: length_Replace_patch assms occ_Replace)

lemma Replace_commute:
  assumes wa: "wfPatch a" and wb: "wfPatch b" and ab: "indep a b" and ba: "indep b a"
  shows "Replace (Replace s (fst b) (snd b)) (fst a) (snd a)
       = Replace (Replace s (fst a) (snd a)) (fst b) (snd b)"
proof (rule nth_equalityI)
  show "length (Replace (Replace s (fst b) (snd b)) (fst a) (snd a))
      = length (Replace (Replace s (fst a) (snd a)) (fst b) (snd b))"
    by (simp add: length_Replace_patch wa wb)
next
  fix i assume "i < length (Replace (Replace s (fst b) (snd b)) (fst a) (snd a))"
  then have i: "i < length s" by (simp add: length_Replace_patch wa wb)
  let ?ma = "selmask s (fst a) (patch_k a) ! i" and ?mb = "selmask s (fst b) (patch_k b) ! i"
  have 1: "Replace (Replace s (fst b) (snd b)) (fst a) (snd a) ! i
      = (if ?ma then patch_d a else if ?mb then patch_d b else s ! i)"
    using i by (simp add: nth_Replace_patch length_Replace_patch wa wb selmask_Replace [OF wa wb ab])
  have 2: "Replace (Replace s (fst a) (snd a)) (fst b) (snd b) ! i
      = (if ?mb then patch_d b else if ?ma then patch_d a else s ! i)"
    using i by (simp add: nth_Replace_patch length_Replace_patch wa wb selmask_Replace [OF wb wa ba])
  have "\<not> (?ma \<and> ?mb)"
  proof
    assume both: "?ma \<and> ?mb"
    note A = selmask_patch [OF wa i conjunct1 [OF both]]
    from wa have ka: "patch_k a < length (fst a)" by (simp add: wfPatch_def)
    from A(1) both have "selmask s (fst b) (patch_k b) ! (i - patch_k a + patch_k a)" by simp
    from clash [OF wa wb ab A(2) ka this] show False .
  qed
  with 1 2 show "Replace (Replace s (fst b) (snd b)) (fst a) (snd a) ! i
      = Replace (Replace s (fst a) (snd a)) (fst b) (snd b) ! i"
    by auto
qed

lemma patches_wf: "\<forall>a \<in> set patches. wfPatch a"
  by code_simp

lemma patches_indep:
  "\<forall>a \<in> set patches. \<forall>b \<in> set patches.
     a = b \<or> (a = p10 \<and> b = p14) \<or> (a = p14 \<and> b = p10) \<or> (indep a b \<and> indep b a)"
  by code_simp

lemma patches_distinct: "distinct (map fst patches)"
  by code_simp

lemma selmask_iff:
  assumes "wfPatch a" "noOverlap (fst a)" "i < length s"
  shows "selmask s (fst a) (patch_k a) ! i \<longleftrightarrow> patch_k a \<le> i \<and> occ (fst a) s (i - patch_k a)"
proof
  assume "selmask s (fst a) (patch_k a) ! i"
  from selmask_patch(1,2) [OF assms(1,3) this]
  show "patch_k a \<le> i \<and> occ (fst a) s (i - patch_k a)" by simp
next
  assume r: "patch_k a \<le> i \<and> occ (fst a) s (i - patch_k a)"
  from assms(1) have k: "patch_k a < length (fst a)" by (simp add: wfPatch_def)
  from occ_selmask [OF k assms(2) conjunct2 [OF r]] r
  show "selmask s (fst a) (patch_k a) ! i" by simp
qed

lemma p10_facts:
  "wfPatch p10" "noOverlap (fst p10)" "patch_k p10 = 1" "patch_d p10 = 0x1b"
  "fst p10 = [0x79, 0x19]" "snd p10 = [0x79, 0x1b]"
  by (simp_all add: p10_def wfPatch_def noOverlap_def patch_k_def patch_d_def)

lemma p14_facts:
  "wfPatch p14" "patch_k p14 = 2" "patch_d p14 = 0x1b"
  "fst p14 = [0x05, 0x79, 0x19]" "snd p14 = [0x05, 0x79, 0x1b]"
  by (simp_all add: p14_def wfPatch_def patch_k_def patch_d_def)

lemma occ_p10: "occ (fst p10) s q \<longleftrightarrow> Suc q < length s \<and> s ! q = 0x79 \<and> s ! Suc q = 0x19"
proof -
  have "(\<forall>j < 2. s ! (q + j) = [0x79, 0x19] ! j) \<longleftrightarrow> s ! q = 0x79 \<and> s ! Suc q = 0x19"
    by (auto simp: less_Suc_eq numeral_2_eq_2)
  then show ?thesis
    by (subst occ_iff) (auto simp: p10_facts)
qed

lemma occ_p14:
  "occ (fst p14) s q \<longleftrightarrow>
     Suc (Suc q) < length s \<and> s ! q = 0x05 \<and> s ! Suc q = 0x79 \<and> s ! Suc (Suc q) = 0x19"
proof -
  have "(\<forall>j < 3. s ! (q + j) = [0x05, 0x79, 0x19] ! j)
      \<longleftrightarrow> s ! q = 0x05 \<and> s ! Suc q = 0x79 \<and> s ! Suc (Suc q) = 0x19"
    by (auto simp: less_Suc_eq numeral_3_eq_3)
  then show ?thesis
    by (subst occ_iff) (auto simp: p14_facts)
qed

text \<open>Where \<open>p10\<close> marks a byte: the byte \<open>0x19\<close> behind a byte \<open>0x79\<close>.\<close>

lemma mask_p10:
  assumes "i < length s"
  shows "selmask s (fst p10) (patch_k p10) ! i \<longleftrightarrow> 0 < i \<and> s ! (i - 1) = 0x79 \<and> s ! i = 0x19"
  using assms
  by (subst selmask_iff [OF p10_facts(1,2) assms]) (auto simp: occ_p10 p10_facts(3))

lemma mask_p14:
  assumes "i < length s" "selmask s (fst p14) (patch_k p14) ! i"
  shows "0 < i" "s ! (i - 1) = 0x79" "s ! i = 0x19"
proof -
  from selmask_patch(1,2) [OF p14_facts(1) assms]
  have "2 \<le> i" "occ (fst p14) s (i - 2)" by (simp_all add: p14_facts(2))
  then have "2 \<le> i" "s ! Suc (i - 2) = 0x79 \<and> s ! Suc (Suc (i - 2)) = 0x19"
    by (simp_all add: occ_p14)
  moreover from \<open>2 \<le> i\<close> have "Suc (i - 2) = i - 1" "Suc (Suc (i - 2)) = i" by linarith+
  ultimately show "0 < i" "s ! (i - 1) = 0x79" "s ! i = 0x19" by simp_all
qed

lemma nth_R10:
  "i < length s \<Longrightarrow> Replace s (fst p10) (snd p10) ! i
     = (if 0 < i \<and> s ! (i - 1) = 0x79 \<and> s ! i = 0x19 then 0x1b else s ! i)"
  by (simp add: nth_Replace_patch [OF p10_facts(1)] mask_p10 p10_facts(4))

lemma R14_R10:
  "Replace (Replace s (fst p10) (snd p10)) (fst p14) (snd p14) = Replace s (fst p10) (snd p10)"
proof (rule nth_equalityI)
  let ?t = "Replace s (fst p10) (snd p10)"
  show "length (Replace ?t (fst p14) (snd p14)) = length ?t"
    by (simp add: length_Replace_patch p14_facts(1))
  fix i assume "i < length (Replace ?t (fst p14) (snd p14))"
  then have it: "i < length ?t" and i: "i < length s"
    by (simp_all add: length_Replace_patch p14_facts(1) p10_facts(1))
  have "\<not> selmask ?t (fst p14) (patch_k p14) ! i"
  proof
    assume m: "selmask ?t (fst p14) (patch_k p14) ! i"
    note M = mask_p14 [OF it m]
    from M(1) i have i1: "i - 1 < length s" by linarith
    from M(3) have a: "s ! i = 0x19" "\<not> (0 < i \<and> s ! (i - 1) = 0x79 \<and> s ! i = 0x19)"
      unfolding nth_R10 [OF i] by (auto split: if_splits)
    from M(2) have "s ! (i - 1) = 0x79"
      unfolding nth_R10 [OF i1] by (auto split: if_splits)
    with a M(1) show False by simp
  qed
  then show "Replace ?t (fst p14) (snd p14) ! i = ?t ! i"
    by (simp add: nth_Replace_patch [OF p14_facts(1) it])
qed

lemma R10_R14:
  "Replace (Replace s (fst p14) (snd p14)) (fst p10) (snd p10) = Replace s (fst p10) (snd p10)"
proof (rule nth_equalityI)
  let ?u = "Replace s (fst p14) (snd p14)"
  have lu: "length ?u = length s" by (simp add: length_Replace_patch p14_facts(1))
  show "length (Replace ?u (fst p10) (snd p10)) = length (Replace s (fst p10) (snd p10))"
    by (simp add: length_Replace_patch p10_facts(1) p14_facts(1))
  fix i assume "i < length (Replace ?u (fst p10) (snd p10))"
  then have i: "i < length s" by (simp add: length_Replace_patch p10_facts(1) p14_facts(1))
  have nu: "?u ! j = (if selmask s (fst p14) (patch_k p14) ! j then 0x1b else s ! j)"
    if "j < length s" for j
    using that by (simp add: nth_Replace_patch [OF p14_facts(1)] p14_facts(3))
  have u79: "?u ! j = 0x79 \<longleftrightarrow> s ! j = 0x79" if "j < length s" for j
  proof (cases "selmask s (fst p14) (patch_k p14) ! j")
    case True
    with mask_p14(3) [OF that True] nu [OF that] show ?thesis by simp
  next
    case False
    with nu [OF that] show ?thesis by simp
  qed
  show "Replace ?u (fst p10) (snd p10) ! i = Replace s (fst p10) (snd p10) ! i"
  proof (cases "selmask s (fst p14) (patch_k p14) ! i")
    case True
    note M = mask_p14 [OF i True]
    have "?u ! i = 0x1b" using nu [OF i] True by simp
    then have "Replace ?u (fst p10) (snd p10) ! i = 0x1b"
      using i by (simp add: nth_R10 lu)
    moreover have "Replace s (fst p10) (snd p10) ! i = 0x1b"
      using M i by (simp add: nth_R10)
    ultimately show ?thesis by simp
  next
    case False
    then have e: "?u ! i = s ! i" using nu [OF i] by simp
    have "?u ! (i - 1) = 0x79 \<longleftrightarrow> s ! (i - 1) = 0x79"
      using i by (intro u79) linarith
    then show ?thesis
      using i by (simp add: nth_R10 lu e)
  qed
qed

lemma patches_commute:
  assumes "a \<in> set patches" "b \<in> set patches"
  shows "Replace (Replace s (fst b) (snd b)) (fst a) (snd a)
       = Replace (Replace s (fst a) (snd a)) (fst b) (snd b)"
proof -
  from patches_wf assms have w: "wfPatch a" "wfPatch b" by blast+
  from patches_indep assms
  consider "a = b" | "a = p10" "b = p14" | "a = p14" "b = p10" | "indep a b" "indep b a"
    by blast
  then show ?thesis
  proof cases
    case 1
    then show ?thesis by simp
  next
    case 2
    then show ?thesis by (simp only: R10_R14 R14_R10)
  next
    case 3
    then show ?thesis by (simp only: R10_R14 R14_R10)
  next
    case 4
    with w show ?thesis by (intro Replace_commute)
  qed
qed

text \<open>
  Claim C9, as amended. For every buffer, the fourteen substitutions applied in any order
  give the same buffer as in the order of the patcher.
\<close>

theorem C9_any_order:
  assumes "mset ps = mset patches"
  shows "applyPatches ps b = applyPatches patches b"
proof -
  have "fold (\<lambda>(old, new) b. Replace b old new) patches = fold (\<lambda>(old, new) b. Replace b old new) ps"
  proof (rule fold_multiset_equiv)
    fix x y assume "x \<in> set patches" "y \<in> set patches"
    then show "(\<lambda>(old, new) b. Replace b old new) x \<circ> (\<lambda>(old, new) b. Replace b old new) y
        = (\<lambda>(old, new) b. Replace b old new) y \<circ> (\<lambda>(old, new) b. Replace b old new) x"
      using patches_commute [of x y] by (auto simp: fun_eq_iff split_beta)
  next
    show "mset patches = mset ps" using assms by simp
  qed
  then show ?thesis by (simp add: applyPatches_def)
qed

text \<open>
  Claim C9 as stated fails in its reason: the patterns are not disjoint. The pattern
  \<open>79 19\<close> of the tenth substitution occurs inside the pattern \<open>05 79 19\<close> of the
  fourteenth; in the buffer \<open>05 79 19\<close> both occur, and each rewrites the third byte.
\<close>

theorem C9_overlap_counterexample:
  "p10 \<in> set patches \<and> p14 \<in> set patches \<and> p10 \<noteq> p14 \<and>
   occ (fst p10) [0x05, 0x79, 0x19] 1 \<and> occ (fst p14) [0x05, 0x79, 0x19] 0 \<and>
   Replace [0x05, 0x79, 0x19] (fst p10) (snd p10) = [0x05, 0x79, 0x1b] \<and>
   Replace [0x05, 0x79, 0x19] (fst p14) (snd p14) = [0x05, 0x79, 0x1b]"
  by (simp add: p10_def p14_def patches_def occ_def)

text \<open>
  The theorem of claim C9 at the reversed order, on a buffer in which five of the patterns
  occur.
\<close>

theorem C9_any_order_witness:
  "applyPatches (rev patches) [0x05, 0x79, 0x19, 0x90, 0xe4, 0x00, 0x7b, 0x64, 0x7f, 0x1a, 0x79, 0x7f, 0x1a, 0x79, 0x7f]
     = applyPatches patches [0x05, 0x79, 0x19, 0x90, 0xe4, 0x00, 0x7b, 0x64, 0x7f, 0x1a, 0x79, 0x7f, 0x1a, 0x79, 0x7f] \<and>
   applyPatches patches [0x05, 0x79, 0x19, 0x90, 0xe4, 0x00, 0x7b, 0x64, 0x7f, 0x1a, 0x79, 0x7f, 0x1a, 0x79, 0x7f]
     = [0x05, 0x79, 0x1b, 0x90, 0xec, 0x00, 0x7b, 0x6c, 0x7f, 0x1c, 0x79, 0x7f, 0x1a, 0x79, 0x7f]"
proof -
  have "applyPatches patches [0x05, 0x79, 0x19, 0x90, 0xe4, 0x00, 0x7b, 0x64, 0x7f, 0x1a, 0x79, 0x7f, 0x1a, 0x79, 0x7f]
     = [0x05, 0x79, 0x1b, 0x90, 0xec, 0x00, 0x7b, 0x6c, 0x7f, 0x1c, 0x79, 0x7f, 0x1a, 0x79, 0x7f]"
    by (simp add: applyPatches_def patches_def)
  with C9_any_order [of "rev patches"] show ?thesis by simp
qed

section \<open>A TI image, patched and classified again\<close>

lemma Index_sealed:
  "0xFE \<notin> set p \<Longrightarrow> Index (p @ a # b # marker) marker = Some (length p + 2)"
proof (induction p)
  case Nil
  show ?case by (simp add: marker_def)
next
  case (Cons x xs)
  then have "x \<noteq> 0xFE" by auto
  then have "take (length marker) ((x # xs) @ a # b # marker) \<noteq> marker"
    by (simp add: marker_def)
  with Cons show ?case by simp
qed

lemma unat_of_nat16: "n < 2 ^ 16 \<Longrightarrow> unat (of_nat n :: uint16) = n"
  by (simp add: unat_of_nat)

lemma TI_sealed:
  assumes r: "raw f = sealed p" and lo: "0x3FA \<le> length p" and hi: "length p + 6 < 2 ^ 16"
    and fe: "0xFE \<notin> set p" and bl: "\<not> tiBL (sealed p)"
  shows "ParseFirmwareTI f
     = Inr (f\<lparr>HasBL := False, StartOffset := 0, Size := of_nat (length p) + 6,
              LastOffset := of_nat (length p) + 5, TailPos := of_nat (length p),
              CRC := Checksum p\<rparr>, None)"
proof -
  let ?c = "Checksum p"
  let ?lo = "ucast (?c AND 0x00ff) :: byte" and ?hi = "ucast (drop_bit 8 ?c) :: byte"
  have s: "sealed p = p @ ?lo # ?hi # marker" by (simp add: sealed_def)
  have len: "length (raw f) = length p + 6" by (simp add: r s marker_def)
  have st: "tiStart (sealed p) = 0" using bl by (simp add: tiStart_def)
  have "Index (sealed p) marker = Some (length p + 2)"
    unfolding s using fe by (rule Index_sealed)
  then have ix: "Index (drop (unat (tiStart (raw f))) (raw f)) marker = Some (length p + 2)"
    by (simp add: r st)
  have w: "(of_nat (length p + 2) + 4 :: uint16) = of_nat (length p) + 6"
    "(of_nat (length p + 2) + 4 + 0 - 1 :: uint16) = of_nat (length p) + 5"
    "(0 + (of_nat (length p + 2) + 4) - 6 :: uint16) = of_nat (length p)"
    by simp_all
  have u1: "unat (of_nat (length p) :: uint16) = length p"
    using hi by (intro unat_of_nat16) simp
  have "(of_nat (length p) + 1 :: uint16) = of_nat (length p + 1)" by simp
  moreover have "unat (of_nat (length p + 1) :: uint16) = length p + 1"
    using hi by (intro unat_of_nat16) simp
  ultimately have u2: "unat (of_nat (length p) + 1 :: uint16) = length p + 1"
    by (simp only:)
  note u = u1 u2
  have n: "raw f ! Suc (length p) = ?hi" "raw f ! length p = ?lo"
    by (simp_all add: r s nth_append)
  have sl: "slice (raw f) 0 (length p) = Inr p"
    by (simp add: slice_def r s)
  have c: "push_bit 8 (ucast ?hi) OR ucast ?lo = ?c" by (rule le16_bytes)
  have l4: "0x400 \<le> length (raw f)" using lo len by simp
  have st': "tiStart (raw f) = 0" "tiBL (raw f) = False" using st bl by (simp_all add: r)
  show ?thesis
    unfolding ParseFirmwareTI_head [OF l4] ix
    by (simp add: st' Let_def w u index_def len n sl c)
qed

lemma classify_sealed:
  assumes r: "raw f = sealed p" and lo: "0x3FA \<le> length p" and hi: "length p + 6 < 2 ^ 16"
    and fe: "0xFE \<notin> set p" and bl: "\<not> tiBL (sealed p)"
  shows "classify f
     = Inr (Some (f\<lparr>HasBL := False, StartOffset := 0, Size := of_nat (length p) + 6,
              LastOffset := of_nat (length p) + 5, TailPos := of_nat (length p),
              CRC := Checksum p, TargetType := FIRMWARE_TARGET_TYPE_TI\<rparr>), None)"
proof -
  have "raw (f\<lparr>TargetType := FIRMWARE_TARGET_TYPE_UNKNOWN\<rparr>) = sealed p" using r by simp
  from TI_sealed [OF this lo hi fe bl] show ?thesis
    by (simp add: classify_def)
qed

lemma not_tiBL_ex:
  "\<not> tiBL (sealed exPayload)" "\<not> tiBL (sealed (exPayload @ replicate 0x800 0xFF))"
  by (simp_all add: tiBL_def sealed_def exPayload_def nth_append)

lemma ParseFirmwareBin_exBase: "ParseFirmwareBin (Some (sealed exPayload)) = Inr (Some exBase, None)"
proof -
  have "classify (zeroFirmware\<lparr>RawData := Some (sealed exPayload)\<rparr>) = Inr (Some exBase, None)"
    by (subst classify_sealed [where p = exPayload])
       (simp_all add: not_tiBL_ex, simp_all add: exPayload_def exBase_def zeroFirmware_def)
  then show ?thesis by (simp add: ParseFirmwareBin_def)
qed

lemma ParseFirmwareBin_exPatched: "ParseFirmwareBin (Some exPatched) = Inr (Some exRepatch, None)"
proof -
  have "classify (zeroFirmware\<lparr>RawData := Some exPatched\<rparr>) = Inr (Some exRepatch, None)"
    by (subst classify_sealed [where p = "exPayload @ replicate 0x800 0xFF"])
       (simp_all add: not_tiBL_ex exPatched_def, simp_all add: exPayload_def exRepatch_def zeroFirmware_def exPatched_def)
  then show ?thesis by (simp add: ParseFirmwareBin_def)
qed

lemma Replace_none: "old \<noteq> [] \<Longrightarrow> hd old \<notin> set s \<Longrightarrow> Replace s old new = s"
proof (induction s)
  case Nil
  then show ?case by simp
next
  case (Cons x xs)
  then have "take (length old) (x # xs) \<noteq> old"
    by (cases old) auto
  with Cons show ?case by simp
qed

lemma applyPatches_none:
  assumes "\<forall>(old, new) \<in> set ps. old \<noteq> [] \<and> hd old \<notin> set s"
  shows "applyPatches ps s = s"
  using assms unfolding applyPatches_def
  by (induction ps) (auto simp: Replace_none)

lemma patches_heads: "\<forall>(old, new) \<in> set patches. old \<noteq> [] \<and> hd old \<notin> {0x22, 0xFF}"
  by (simp add: patches_def)

lemma applyPatches_ex: "applyPatches patches (exPayload @ replicate 0x806 0xFF) = exPayload @ replicate 0x806 0xFF"
proof (rule applyPatches_none)
  have "set (exPayload @ replicate 0x806 0xFF) \<subseteq> {0x22, 0xFF}"
    by (auto simp: exPayload_def)
  with patches_heads
  show "\<forall>(old, new) \<in> set patches. old \<noteq> [] \<and> hd old \<notin> set (exPayload @ replicate 0x806 0xFF)"
    by blast
qed

lemma downgrade_exBase:
  "BaseImageDowngradeFromBL0302ToBL0301 exBase = Inr (exBase, Some exPatched, None)"
proof -
  let ?c = "Checksum exPayload"
  let ?P1 = "exPayload @ replicate 0x800 0xFF"
  have lp: "length exPayload = 0x5FFA" by (simp add: exPayload_def)
  have f: "TargetType exBase = FIRMWARE_TARGET_TYPE_TI" "Size exBase = 0x6000" "StartOffset exBase = 0"
    "raw exBase = sealed exPayload"
    by (simp_all add: exBase_def zeroFirmware_def raw_def)
  have ls: "length (sealed exPayload) = 0x6000" by (simp add: sealed_def marker_def lp)
  have sl: "slice (raw exBase) (unat (StartOffset exBase)) (unat (StartOffset exBase + Size exBase))
      = Inr (sealed exPayload)"
    by (simp add: f slice_def ls)
  have p1: "copy_into (replicate 0x6800 (0 :: byte)) 0 0x6800 (sealed exPayload)
      = sealed exPayload @ replicate 0x800 0"
    by (simp add: copy_into_def ls)
  have t: "take 0x5ffa (sealed exPayload @ replicate 0x800 0) = exPayload"
    "take 0x5ffa (sealed exPayload) = exPayload"
    by (simp_all add: sealed_def lp)
  have d: "drop 0x6000 (sealed exPayload @ replicate 0x800 (0 :: byte)) = replicate 0x800 0"
    by (simp add: ls)
  have p2: "fillFF (sealed exPayload @ replicate 0x800 0) 0x5ffa 6
      = Inr (exPayload @ replicate 6 0xFF @ replicate 0x800 0)"
    by (subst fillFF_eq) (simp_all add: ls t d)
  have l2: "length (exPayload @ replicate 6 0xFF @ replicate 0x800 (0 :: byte)) = 0x6800"
    by (simp add: lp)
  have p3: "fillFF (exPayload @ replicate 6 0xFF @ replicate 0x800 0) 0x6000 0x800
      = Inr (exPayload @ replicate 0x806 0xFF)"
  proof -
    have "take 0x6000 (exPayload @ replicate 6 0xFF @ replicate 0x800 (0 :: byte)) = exPayload @ replicate 6 0xFF"
      by (simp add: lp)
    moreover have "replicate 6 (0xFF :: byte) @ replicate 0x800 0xFF = replicate 0x806 0xFF"
      by (simp add: replicate_add [symmetric])
    ultimately show ?thesis
      by (subst fillFF_eq) (simp_all add: l2 lp)
  qed
  have l4: "length (exPayload @ replicate 0x806 (0xFF :: byte)) = 0x6800" by (simp add: lp)
  have p5: "copy_into (exPayload @ replicate 0x806 0xFF) 0x67fc 0x6800 marker
      = ?P1 @ replicate 2 0xFF @ marker"
  proof -
    have "take 0x67fc (exPayload @ replicate 0x806 (0xFF :: byte)) = exPayload @ replicate 0x802 0xFF"
      by (simp add: lp)
    moreover have "replicate 0x802 (0xFF :: byte) = replicate 0x800 0xFF @ replicate 2 0xFF"
      by (simp add: replicate_add [symmetric])
    ultimately show ?thesis
      by (simp add: copy_into_def marker_def lp)
  qed
  have l1: "length ?P1 = 0x67fa" by (simp add: lp)
  have l5: "length (?P1 @ replicate 2 0xFF @ marker) = 0x6800" by (simp add: lp marker_def)
  have tk: "take 0x67fa (?P1 @ replicate 2 0xFF @ marker) = ?P1"
    using l1 by simp
  have up2: "(xs @ y # z # ys)[n := a, Suc n := b] = xs @ a # b # ys" if "length xs = n"
    for xs ys :: "byte list" and y z a b n
    using that by (simp add: list_update_append)
  have up: "(exPayload @ replicate 0x800 0xFF @ replicate 2 0xFF @ marker)[0x67fa := a, 0x67fb := b]
      = exPayload @ replicate 0x800 0xFF @ a # b # marker" for a b
  proof -
    have "replicate 2 (0xFF :: byte) = [0xFF, 0xFF]" by (simp add: numeral_2_eq_2)
    moreover have "Suc 0x67fa = (0x67fb :: nat)" by simp
    ultimately show ?thesis
      using up2 [where xs = ?P1 and n = "0x67fa" and y = "0xFF" and z = "0xFF" and ys = marker
          and a = a and b = b] l1 by simp
  qed
  have lm: "length marker = 4" by (simp add: marker_def)
  show ?thesis
    unfolding BaseImageDowngradeFromBL0302ToBL0301_def
    by (simp add: f(1,2) sl [unfolded f(2)] Let_def p1 p2 p3 l2 lp lm applyPatches_ex l4 p5 l5
        slice_take store_def tk up)
       (simp add: exPatched_def sealed_def)
qed

text \<open>The check value of CRC-16/CCITT-FALSE.\<close>

lemma Checksum_check: "Checksum (map of_char ''123456789'') = 0x29B1"
  by code_simp

text \<open>
  The theorem of claim C1 at the entity that \<open>ParseFirmwareBin\<close> returns for the example
  image of \<open>0x6000\<close> bytes: the patcher returns the example image of \<open>0x6800\<close> bytes.
\<close>

theorem C1_downgrade_witness:
  "ParseFirmwareBin (Some (sealed exPayload)) = Inr (Some exBase, None) \<and>
   BaseImageDowngradeFromBL0302ToBL0301 exBase = Inr (exBase, Some exPatched, None) \<and>
   length exPatched = 0x6800 \<and>
   drop (length exPatched - 4) exPatched = [0xfe, 0xc0, 0xad, 0xde] \<and>
   Checksum (take (length exPatched - 6) exPatched)
     = push_bit 8 (ucast (exPatched ! (length exPatched - 5))) OR ucast (exPatched ! (length exPatched - 6))"
proof -
  have h: "TargetType exBase = FIRMWARE_TARGET_TYPE_TI" "Size exBase = 0x6000" "holdsImage exBase"
    by (simp_all add: exBase_def holdsImage_def sealed_def marker_def exPayload_def zeroFirmware_def raw_def)
  from C1_downgrade [OF h] obtain out where
    o: "BaseImageDowngradeFromBL0302ToBL0301 exBase = Inr (exBase, Some out, None)"
      "length out = 0x6800" "drop (length out - 4) out = [0xfe, 0xc0, 0xad, 0xde]"
      "Checksum (take (length out - 6) out)
         = push_bit 8 (ucast (out ! (length out - 5))) OR ucast (out ! (length out - 6))"
    by blast
  from o(1) downgrade_exBase have "out = exPatched" by simp
  with o ParseFirmwareBin_exBase show ?thesis by blast
qed

text \<open>
  The theorem of claim C2 at the zero entity (unknown target type), and at the entity that
  \<open>ParseFirmwareBin\<close> returns for the patched example image: it is of type TI and of size
  \<open>0x6800\<close>, and the patcher rejects it.
\<close>

theorem C2_rejects_witness:
  "BaseImageDowngradeFromBL0302ToBL0301 zeroFirmware = Inr (zeroFirmware, None, Some ErrDowngradeNotTI) \<and>
   BaseImageDowngradeFromBL0302ToBL0301 exBase = Inr (exBase, Some exPatched, None) \<and>
   ParseFirmwareBin (Some exPatched) = Inr (Some exRepatch, None) \<and>
   Size exRepatch = 0x6800 \<and>
   BaseImageDowngradeFromBL0302ToBL0301 exRepatch = Inr (exRepatch, None, Some ErrDowngradeWrongSize)"
proof -
  have z: "TargetType zeroFirmware \<noteq> FIRMWARE_TARGET_TYPE_TI" by (simp add: zeroFirmware_def)
  have r: "TargetType exRepatch = FIRMWARE_TARGET_TYPE_TI" "Size exRepatch = 0x6800"
    by (simp_all add: exRepatch_def)
  from C2_rejects [of zeroFirmware] z
  have 1: "BaseImageDowngradeFromBL0302ToBL0301 zeroFirmware = Inr (zeroFirmware, None, Some ErrDowngradeNotTI)"
    by blast
  from C2_rejects [of exRepatch] r
  have 2: "BaseImageDowngradeFromBL0302ToBL0301 exRepatch = Inr (exRepatch, None, Some ErrDowngradeWrongSize)"
    by simp
  from 1 2 r(2) downgrade_exBase ParseFirmwareBin_exPatched show ?thesis by blast
qed

end
